theory Spec2Isabelle
  imports Main "HOL-Library.Sublist" "HOL-Library.AList"
begin

section \<open>OneDrive.py: share links to direct links\<close>

text \<open>
  A shallow embedding of \<^verbatim>\<open>src/OneDrive.py\<close>. A Python \<^verbatim>\<open>str\<close> is modelled by the
  list of the bytes of its UTF-8 encoding (\<^typ>\<open>string\<close>); every delimiter, literal and
  character class of the program is ASCII, so splitting, searching and comparing act on
  the bytes as they act on the code points. Text of the program that is not ASCII (its
  Chinese messages) is written out byte by byte.
\<close>

section \<open>Python's string methods\<close>

text \<open>
  \<^verbatim>\<open>str.lower()\<close> on the ASCII letters: an upper-case letter gets bit 5 set, which
  adds 32 to its code. The program compares lowered text only with
  ASCII literals that hold no \<^verbatim>\<open>k\<close> and do not end in \<^verbatim>\<open>i\<close>, and no other code
  point lowers to text such a comparison can see, so the bytes outside ASCII stay.
\<close>

definition lower_char :: "char \<Rightarrow> char" where
  "lower_char c =
     (if c \<in> set ''ABCDEFGHIJKLMNOPQRSTUVWXYZ''
      then Char (digit0 c) (digit1 c) (digit2 c) (digit3 c) (digit4 c) True (digit6 c) (digit7 c)
      else c)"

definition str_lower :: "string \<Rightarrow> string" where
  "str_lower s = map lower_char s"

definition isascii :: "string \<Rightarrow> bool" where
  "isascii s = list_all (\<lambda>c. \<not> digit7 c) s"

definition isalpha_ascii :: "char \<Rightarrow> bool" where
  "isalpha_ascii c = (c \<in> set ''abcdefghijklmnopqrstuvwxyzABCDEFGHIJKLMNOPQRSTUVWXYZ'')"

text \<open>\<^verbatim>\<open>s.find(c)\<close>: the first index of \<open>c\<close>, or \<open>-1\<close>.\<close>

definition str_find :: "char \<Rightarrow> string \<Rightarrow> int" where
  "str_find c s = (if c \<in> set s then int (length (takeWhile (\<lambda>x. x \<noteq> c) s)) else - 1)"

text \<open>\<^verbatim>\<open>s.rfind(c)\<close>: the last index of \<open>c\<close>, or \<open>-1\<close>.\<close>

definition str_rfind :: "char \<Rightarrow> string \<Rightarrow> int" where
  "str_rfind c s =
     (if c \<in> set s then int (length s) - 1 - int (length (takeWhile (\<lambda>x. x \<noteq> c) (rev s)))
      else - 1)"

text \<open>\<^verbatim>\<open>s.partition(c)\<close>: before, whether found, after the first \<open>c\<close>.\<close>

definition str_partition :: "char \<Rightarrow> string \<Rightarrow> string \<times> bool \<times> string" where
  "str_partition c s =
     (if c \<in> set s
      then (takeWhile (\<lambda>x. x \<noteq> c) s, True, drop 1 (dropWhile (\<lambda>x. x \<noteq> c) s))
      else (s, False, []))"

text \<open>\<^verbatim>\<open>s.rpartition(c)\<close>: before, whether found, after the last \<open>c\<close>.\<close>

definition str_rpartition :: "char \<Rightarrow> string \<Rightarrow> string \<times> bool \<times> string" where
  "str_rpartition c s =
     (if c \<in> set s
      then (rev (drop 1 (dropWhile (\<lambda>x. x \<noteq> c) (rev s))), True,
            rev (takeWhile (\<lambda>x. x \<noteq> c) (rev s)))
      else ([], False, s))"

text \<open>\<^verbatim>\<open>s.split(c)\<close>: never empty, \<^verbatim>\<open>''.split(c) == ['']\<close>.\<close>

fun str_split :: "char \<Rightarrow> string \<Rightarrow> string list" where
  "str_split c [] = [[]]"
| "str_split c (x # xs) =
     (if x = c then [] # str_split c xs
      else (case str_split c xs of
              [] \<Rightarrow> [[x]]
            | r # rs \<Rightarrow> (x # r) # rs))"

text \<open>\<^verbatim>\<open>s.split(c, 1)\<close> as a pair, used where \<open>c\<close> is in \<open>s\<close>.\<close>

definition str_split1 :: "char \<Rightarrow> string \<Rightarrow> string \<times> string" where
  "str_split1 c s = (takeWhile (\<lambda>x. x \<noteq> c) s, drop 1 (dropWhile (\<lambda>x. x \<noteq> c) s))"

text \<open>\<^verbatim>\<open>sep.join(parts)\<close>.\<close>

fun str_join :: "string \<Rightarrow> string list \<Rightarrow> string" where
  "str_join sep [] = []"
| "str_join sep [p] = p"
| "str_join sep (p # q # ps) = p @ sep @ str_join sep (q # ps)"

text \<open>\<^verbatim>\<open>s.replace(c, t)\<close> for a single character \<open>c\<close>.\<close>

definition str_replace :: "char \<Rightarrow> string \<Rightarrow> string \<Rightarrow> string" where
  "str_replace c t s = concat (map (\<lambda>x. if x = c then t else [x]) s)"

section \<open>The world outside the program\<close>

text \<open>
  Errors are values. \<^verbatim>\<open>OneDriveLinkError\<close> carries its message; \<^verbatim>\<open>ValueError\<close> is what
  \<^verbatim>\<open>urllib.parse\<close> raises, which the program does not catch.
\<close>

datatype exn = OneDriveLinkError string | ValueError

datatype ip_version = IPv4 | IPv6

text \<open>What \<^verbatim>\<open>requests\<close> gives back: the fields of the response the program reads.\<close>

record response =
  status_code :: int
  is_redirect :: bool
  resp_url :: string

text \<open>
  The environment: the two library functions that \<^verbatim>\<open>urllib.parse\<close> calls and that are
  not modelled (\<^verbatim>\<open>unicodedata.normalize('NFKC', s)\<close> and \<^verbatim>\<open>ipaddress.ip_address(s)\<close>,
  \<^const>\<open>None\<close> when it raises), and the network: what \<^verbatim>\<open>requests.head\<close> and
  \<^verbatim>\<open>requests.get\<close> answer for a url with redirects followed, the caller's timeout and the
  program's user agent (\<^const>\<open>Inl\<close> the text of a \<^verbatim>\<open>RequestException\<close>).
\<close>

record env =
  nfkc :: "string \<Rightarrow> string"
  ip_address :: "string \<Rightarrow> ip_version option"
  requests_head :: "string \<Rightarrow> string + response"
  requests_get :: "string \<Rightarrow> string + response"

text \<open>The network calls a run of the program makes, in order.\<close>

datatype request = Head string | Get string

section \<open>\<^verbatim>\<open>urllib.parse\<close> (CPython 3.11): splitting a url\<close>

definition uses_netloc :: "string list" where
  "uses_netloc = ['''', ''ftp'', ''http'', ''gopher'', ''nntp'', ''telnet'',
     ''imap'', ''wais'', ''file'', ''mms'', ''https'', ''shttp'',
     ''snews'', ''prospero'', ''rtsp'', ''rtsps'', ''rtspu'', ''rsync'',
     ''svn'', ''svn+ssh'', ''sftp'', ''nfs'', ''git'', ''git+ssh'',
     ''ws'', ''wss'']"

definition uses_params :: "string list" where
  "uses_params = ['''', ''ftp'', ''hdl'', ''prospero'', ''http'', ''imap'',
     ''https'', ''shttp'', ''rtsp'', ''rtsps'', ''rtspu'', ''sip'',
     ''sips'', ''mms'', ''sftp'', ''tel'']"

definition scheme_chars :: string where
  "scheme_chars = ''abcdefghijklmnopqrstuvwxyzABCDEFGHIJKLMNOPQRSTUVWXYZ0123456789+-.''"

text \<open>\<^verbatim>\<open>_WHATWG_C0_CONTROL_OR_SPACE\<close>: the code points 0 to 32.\<close>

definition c0_control_or_space :: "char \<Rightarrow> bool" where
  "c0_control_or_space c = ((of_char c :: nat) \<le> 32)"

text \<open>\<^verbatim>\<open>_UNSAFE_URL_BYTES_TO_REMOVE\<close>: tab, carriage return, newline.\<close>

definition unsafe_url_byte :: "char \<Rightarrow> bool" where
  "unsafe_url_byte c = (c \<in> set [CHR 0x09, CHR 0x0D, CHR 0x0A])"

text \<open>
  The scheme step of \<^verbatim>\<open>urlsplit\<close>: \<^verbatim>\<open>i = url.find(':')\<close>, and when \<^verbatim>\<open>i > 0\<close>, the
  first character is an ASCII letter and all of \<^verbatim>\<open>url[:i]\<close> are scheme characters,
  the scheme is \<^verbatim>\<open>url[:i].lower()\<close> and the url goes on at \<^verbatim>\<open>url[i+1:]\<close>.
\<close>

definition split_scheme :: "string \<Rightarrow> string \<times> string" where
  "split_scheme url =
     (let i = str_find CHR '':'' url in
      if i > 0 \<and> (case url of [] \<Rightarrow> False | c # _ \<Rightarrow> \<not> digit7 c \<and> isalpha_ascii c) \<and>
         list_all (\<lambda>c. c \<in> set scheme_chars) (take (nat i) url)
      then (str_lower (take (nat i) url), drop (nat i + 1) url)
      else ([], url))"

text \<open>
  \<^verbatim>\<open>_splitnetloc(url, 2)\<close>: the text from index 2 up to the first of \<^verbatim>\<open>/ ? #\<close>, and
  the rest from that delimiter on.
\<close>

definition splitnetloc :: "string \<Rightarrow> string \<times> string" where
  "splitnetloc url =
     (takeWhile (\<lambda>c. c \<notin> set ''/?#'') (drop 2 url),
      dropWhile (\<lambda>c. c \<notin> set ''/?#'') (drop 2 url))"

text \<open>
  \<^verbatim>\<open>_checknetloc\<close>: \<^const>\<open>True\<close> when it returns, \<^const>\<open>False\<close> when it raises
  \<^verbatim>\<open>ValueError\<close>.
\<close>

definition checknetloc :: "env \<Rightarrow> string \<Rightarrow> bool" where
  "checknetloc e netloc =
     (if netloc = [] \<or> isascii netloc then True
      else (let n = filter (\<lambda>c. c \<notin> set ''@:#?'') netloc;
                netloc2 = nfkc e n
            in if n = netloc2 then True
               else \<not> list_ex (\<lambda>c. c \<in> set netloc2) ''/?#@:''))"

definition is_hexdig :: "char \<Rightarrow> bool" where
  "is_hexdig c = (c \<in> set ''0123456789ABCDEFabcdef'')"

text \<open>\<^verbatim>\<open>re.match(r"\Av[a-fA-F0-9]+\..+\Z", hostname)\<close>.\<close>

definition re_match_ipvfuture :: "string \<Rightarrow> bool" where
  "re_match_ipvfuture h =
     (case h of
        [] \<Rightarrow> False
      | c # r \<Rightarrow>
          c = CHR ''v'' \<and> takeWhile is_hexdig r \<noteq> [] \<and>
          (case dropWhile is_hexdig r of
             [] \<Rightarrow> False
           | d # t \<Rightarrow> d = CHR ''.'' \<and> t \<noteq> [] \<and> CHR 0x0A \<notin> set t))"

text \<open>
  \<^verbatim>\<open>_check_bracketed_host\<close>: \<^const>\<open>True\<close> when it returns, \<^const>\<open>False\<close> when it
  raises \<^verbatim>\<open>ValueError\<close>.
\<close>

definition check_bracketed_host :: "env \<Rightarrow> string \<Rightarrow> bool" where
  "check_bracketed_host e h =
     (if prefix ''v'' h then re_match_ipvfuture h
      else (case ip_address e h of
              None \<Rightarrow> False
            | Some IPv4 \<Rightarrow> False
            | Some IPv6 \<Rightarrow> True))"

text \<open>The end of \<^verbatim>\<open>urlsplit\<close>: fragment, query, \<^verbatim>\<open>_checknetloc\<close>.\<close>

definition urlsplit_rest ::
  "env \<Rightarrow> string \<Rightarrow> string \<Rightarrow> string \<Rightarrow> exn + (string \<times> string \<times> string \<times> string \<times> string)" where
  "urlsplit_rest e scheme netloc url =
     (let (url1, fragment) =
            (if CHR ''#'' \<in> set url then str_split1 CHR ''#'' url else (url, []));
          (url2, query) =
            (if CHR ''?'' \<in> set url1 then str_split1 CHR ''?'' url1 else (url1, []))
      in if checknetloc e netloc then Inr (scheme, netloc, url2, query, fragment)
         else Inl ValueError)"

text \<open>\<^verbatim>\<open>urlsplit(url)\<close>: scheme, netloc, path, query, fragment.\<close>

definition urlsplit ::
  "env \<Rightarrow> string \<Rightarrow> exn + (string \<times> string \<times> string \<times> string \<times> string)" where
  "urlsplit e url =
     (let url1 = dropWhile c0_control_or_space url;
          url2 = filter (\<lambda>c. \<not> unsafe_url_byte c) url1;
          (scheme, url3) = split_scheme url2
      in if take 2 url3 = ''//''
         then (let (netloc, url4) = splitnetloc url3 in
               if (CHR ''['' \<in> set netloc \<and> CHR '']'' \<notin> set netloc) \<or>
                  (CHR '']'' \<in> set netloc \<and> CHR ''['' \<notin> set netloc)
               then Inl ValueError
               else if CHR ''['' \<in> set netloc \<and> CHR '']'' \<in> set netloc \<and>
                       \<not> check_bracketed_host e
                           (fst (str_partition CHR '']''
                                  (snd (snd (str_partition CHR ''['' netloc)))))
               then Inl ValueError
               else urlsplit_rest e scheme netloc url4)
         else urlsplit_rest e scheme [] url3)"

text \<open>
  \<^verbatim>\<open>_splitparams(url)\<close>, which \<^verbatim>\<open>urlparse\<close> calls only when \<^verbatim>\<open>';' in url\<close>: the
  first \<^verbatim>\<open>;\<close> at or after the last \<^verbatim>\<open>/\<close> splits the path from its parameters.
\<close>

definition splitparams :: "string \<Rightarrow> string \<times> string" where
  "splitparams url =
     (if CHR ''/'' \<in> set url
      then (let k = nat (str_rfind CHR ''/'' url) in
            if CHR '';'' \<in> set (drop k url)
            then (take k url @ takeWhile (\<lambda>x. x \<noteq> CHR '';'') (drop k url),
                  drop 1 (dropWhile (\<lambda>x. x \<noteq> CHR '';'') (drop k url)))
            else (url, []))
      else str_split1 CHR '';'' url)"

text \<open>The six fields of \<^verbatim>\<open>ParseResult\<close>.\<close>

record parse_result =
  pr_scheme :: string
  pr_netloc :: string
  pr_path :: string
  pr_params :: string
  pr_query :: string
  pr_fragment :: string

definition urlparse :: "env \<Rightarrow> string \<Rightarrow> exn + parse_result" where
  "urlparse e url =
     (case urlsplit e url of
        Inl err \<Rightarrow> Inl err
      | Inr (scheme, netloc, url1, query, fragment) \<Rightarrow>
          (let (url2, params) =
                 (if scheme \<in> set uses_params \<and> CHR '';'' \<in> set url1 then splitparams url1
                  else (url1, []))
           in Inr \<lparr>pr_scheme = scheme, pr_netloc = netloc, pr_path = url2,
                    pr_params = params, pr_query = query, pr_fragment = fragment\<rparr>))"

text \<open>
  The \<^verbatim>\<open>hostname\<close> property: the text after the last \<^verbatim>\<open>@\<close>; inside the first
  brackets when there are any, else up to the first colon; \<^const>\<open>None\<close> when empty;
  lowered up to a \<^verbatim>\<open>%\<close> (the zone of a scoped address keeps its case).
\<close>

definition hostinfo_name :: "string \<Rightarrow> string" where
  "hostinfo_name netloc =
     (let hostinfo = snd (snd (str_rpartition CHR ''@'' netloc));
          (_, have_open_br, bracketed) = str_partition CHR ''['' hostinfo
      in if have_open_br then fst (str_partition CHR '']'' bracketed)
         else fst (str_partition CHR '':'' hostinfo))"

definition hostname :: "parse_result \<Rightarrow> string option" where
  "hostname p =
     (let h = hostinfo_name (pr_netloc p) in
      if h = [] then None
      else (let (name, percent, zone) = str_partition CHR ''%'' h in
            Some (str_lower name @ (if percent then ''%'' else []) @ zone)))"

text \<open>\<^verbatim>\<open>urlunsplit\<close> and \<^verbatim>\<open>urlunparse\<close>.\<close>

definition urlunsplit :: "string \<times> string \<times> string \<times> string \<times> string \<Rightarrow> string" where
  "urlunsplit c =
     (case c of (scheme, netloc, url, query, fragment) \<Rightarrow>
        (let url1 =
               (if netloc \<noteq> [] \<or> (scheme \<noteq> [] \<and> scheme \<in> set uses_netloc) \<or> take 2 url = ''//''
                then ''//'' @ netloc @ (if url \<noteq> [] \<and> take 1 url \<noteq> ''/'' then ''/'' @ url else url)
                else url);
             url2 = (if scheme \<noteq> [] then scheme @ '':'' @ url1 else url1);
             url3 = (if query \<noteq> [] then url2 @ ''?'' @ query else url2)
         in if fragment \<noteq> [] then url3 @ ''#'' @ fragment else url3))"

definition urlunparse :: "string \<times> string \<times> string \<times> string \<times> string \<times> string \<Rightarrow> string" where
  "urlunparse c =
     (case c of (scheme, netloc, url, params, query, fragment) \<Rightarrow>
        urlunsplit (scheme, netloc, (if params \<noteq> [] then url @ '';'' @ params else url),
                    query, fragment))"

section \<open>\<^verbatim>\<open>urllib.parse\<close> (CPython 3.11): query strings\<close>

definition hexval :: "char \<Rightarrow> nat" where
  "hexval c =
     (case map_of (zip ''0123456789ABCDEFabcdef''
                       [0, 1, 2, 3, 4, 5, 6, 7, 8, 9, 10, 11, 12, 13, 14, 15, 10, 11, 12, 13, 14, 15]) c of
        Some v \<Rightarrow> v
      | None \<Rightarrow> 0)"

text \<open>
  One piece after a \<^verbatim>\<open>%\<close> in \<^verbatim>\<open>unquote_to_bytes\<close>: two hex digits become their
  byte, anything else keeps its \<^verbatim>\<open>%\<close>.
\<close>

definition unquote_item :: "string \<Rightarrow> string" where
  "unquote_item item =
     (case item of
        a # b # rest \<Rightarrow>
          if is_hexdig a \<and> is_hexdig b then char_of (16 * hexval a + hexval b) # rest
          else CHR ''%'' # item
      | _ \<Rightarrow> CHR ''%'' # item)"

definition unquote_to_bytes :: "string \<Rightarrow> string" where
  "unquote_to_bytes s =
     (if s = [] then []
      else (case str_split CHR ''%'' s of
              [] \<Rightarrow> s
            | b # bits \<Rightarrow> if bits = [] then s else b @ concat (map unquote_item bits)))"

text \<open>
  \<^verbatim>\<open>bytes.decode('utf-8', 'replace')\<close>, read back as UTF-8: well-formed sequences
  stay, and each maximal ill-formed prefix of a sequence becomes U+FFFD.
\<close>

definition replacement_char :: string where
  "replacement_char = [CHR 0xEF, CHR 0xBF, CHR 0xBD]"

definition is_cont :: "char \<Rightarrow> bool" where
  "is_cont c = (128 \<le> (of_char c :: nat) \<and> (of_char c :: nat) \<le> 191)"

text \<open>The second byte that may follow the lead byte of a three- or four-byte sequence.\<close>

definition second_ok :: "char \<Rightarrow> char \<Rightarrow> bool" where
  "second_ok b c =
     (let l = (of_char b :: nat); n = (of_char c :: nat) in
      if l = 224 then 160 \<le> n \<and> n \<le> 191
      else if l = 237 then 128 \<le> n \<and> n \<le> 159
      else if l = 240 then 144 \<le> n \<and> n \<le> 191
      else if l = 244 then 128 \<le> n \<and> n \<le> 143
      else 128 \<le> n \<and> n \<le> 191)"

fun utf8_replace :: "string \<Rightarrow> string" where
  "utf8_replace [] = []"
| "utf8_replace (b # bs) =
     (let l = (of_char b :: nat) in
      if l < 128 then b # utf8_replace bs
      else if 194 \<le> l \<and> l \<le> 223 then
        (case bs of
           [] \<Rightarrow> replacement_char
         | c1 # r1 \<Rightarrow>
             if is_cont c1 then b # c1 # utf8_replace r1
             else replacement_char @ utf8_replace bs)
      else if 224 \<le> l \<and> l \<le> 239 then
        (case bs of
           [] \<Rightarrow> replacement_char
         | c1 # r1 \<Rightarrow>
             if second_ok b c1 then
               (case r1 of
                  [] \<Rightarrow> replacement_char
                | c2 # r2 \<Rightarrow>
                    if is_cont c2 then b # c1 # c2 # utf8_replace r2
                    else replacement_char @ utf8_replace r1)
             else replacement_char @ utf8_replace bs)
      else if 240 \<le> l \<and> l \<le> 244 then
        (case bs of
           [] \<Rightarrow> replacement_char
         | c1 # r1 \<Rightarrow>
             if second_ok b c1 then
               (case r1 of
                  [] \<Rightarrow> replacement_char
                | c2 # r2 \<Rightarrow>
                    if is_cont c2 then
                      (case r2 of
                         [] \<Rightarrow> replacement_char
                       | c3 # r3 \<Rightarrow>
                           if is_cont c3 then b # c1 # c2 # c3 # utf8_replace r3
                           else replacement_char @ utf8_replace r2)
                    else replacement_char @ utf8_replace r1)
             else replacement_char @ utf8_replace bs)
      else replacement_char @ utf8_replace bs)"

text \<open>
  \<^verbatim>\<open>_asciire.split(string)\<close>: the maximal runs of ASCII and of other characters,
  in order.
\<close>

fun ascii_runs :: "string \<Rightarrow> string list" where
  "ascii_runs [] = []"
| "ascii_runs (c # cs) =
     (case ascii_runs cs of
        [] \<Rightarrow> [[c]]
      | [] # rs \<Rightarrow> [c] # rs
      | (d # r) # rs \<Rightarrow> if digit7 c = digit7 d then (c # d # r) # rs else [c] # (d # r) # rs)"

text \<open>
  \<^verbatim>\<open>unquote(string)\<close> with \<^verbatim>\<open>encoding='utf-8', errors='replace'\<close>: the ASCII runs
  are percent-decoded and the bytes read as UTF-8, the other runs stay.
\<close>

definition unquote :: "string \<Rightarrow> string" where
  "unquote s =
     (if CHR ''%'' \<notin> set s then s
      else concat (map (\<lambda>run. case run of
                                [] \<Rightarrow> []
                              | c # _ \<Rightarrow> if digit7 c then run
                                         else utf8_replace (unquote_to_bytes run))
                       (ascii_runs s)))"

definition unquote_plus :: "string \<Rightarrow> string" where
  "unquote_plus s = unquote (str_replace CHR ''+'' '' '' s)"

text \<open>
  \<^verbatim>\<open>parse_qsl(qs)\<close> with its defaults (\<^verbatim>\<open>keep_blank_values=False\<close>,
  \<^verbatim>\<open>strict_parsing=False\<close>, \<^verbatim>\<open>separator='&'\<close>): one field of the query.
\<close>

definition parse_field :: "string \<Rightarrow> (string \<times> string) list" where
  "parse_field name_value =
     (if name_value \<noteq> [] then
        (let (name, has_eq, v) = str_partition CHR ''='' name_value in
         if v \<noteq> [] then [(unquote_plus name, unquote_plus v)] else [])
      else [])"

definition parse_qsl :: "string \<Rightarrow> (string \<times> string) list" where
  "parse_qsl qs = (if qs = [] then [] else concat (map parse_field (str_split CHR ''&'' qs)))"

text \<open>
  \<^verbatim>\<open>dict(pairs)\<close>: a later value replaces an earlier one in place, a new key goes
  last.
\<close>

definition dict_of :: "(string \<times> string) list \<Rightarrow> (string \<times> string) list" where
  "dict_of pairs = foldl (\<lambda>d kv. AList.update (fst kv) (snd kv) d) [] pairs"

definition always_safe :: string where
  "always_safe = ''ABCDEFGHIJKLMNOPQRSTUVWXYZabcdefghijklmnopqrstuvwxyz0123456789_.-~''"

definition hexdigit :: "nat \<Rightarrow> char" where
  "hexdigit n = ''0123456789ABCDEF'' ! (n mod 16)"

text \<open>\<^verbatim>\<open>_Quoter.__missing__\<close>: \<^verbatim>\<open>chr(b) if b in self.safe else '%{:02X}'.format(b)\<close>.\<close>

definition quoter :: "string \<Rightarrow> char \<Rightarrow> string" where
  "quoter safe b =
     (if b \<in> set (always_safe @ safe) then [b]
      else [CHR ''%'', hexdigit ((of_char b :: nat) div 16), hexdigit ((of_char b :: nat) mod 16)])"

definition quote_from_bytes :: "string \<Rightarrow> string \<Rightarrow> string" where
  "quote_from_bytes bs safe =
     (if bs = [] then []
      else if list_all (\<lambda>b. b \<in> set (always_safe @ safe)) bs then bs
      else concat (map (quoter safe) bs))"

definition quote :: "string \<Rightarrow> string \<Rightarrow> string" where
  "quote s safe = (if s = [] then s else quote_from_bytes s safe)"

definition quote_plus :: "string \<Rightarrow> string \<Rightarrow> string" where
  "quote_plus s safe =
     (if CHR '' '' \<notin> set s then quote s safe
      else str_replace CHR '' '' ''+'' (quote s (safe @ '' '')))"

text \<open>\<^verbatim>\<open>urlencode(query, doseq=True)\<close> on a dict whose values are all \<^verbatim>\<open>str\<close>.\<close>

definition urlencode :: "(string \<times> string) list \<Rightarrow> string" where
  "urlencode query =
     str_join ''&'' (map (\<lambda>kv. quote_plus (fst kv) [] @ ''='' @ quote_plus (snd kv) []) query)"

section \<open>The program: \<^verbatim>\<open>OneDrive.py\<close>\<close>

text \<open>The messages of the program, the Chinese text as UTF-8.\<close>

definition msg_need_http :: string where
  "msg_need_http =
     [CHR 0xE8, CHR 0xAF, CHR 0xB7, CHR 0xE8, CHR 0xBE, CHR 0x93, CHR 0xE5, CHR 0x85, CHR 0xA5,
      CHR 0xE4, CHR 0xBB, CHR 0xA5] @
     '' http:// '' @
     [CHR 0xE6, CHR 0x88, CHR 0x96] @
     '' https:// '' @
     [CHR 0xE5, CHR 0xBC, CHR 0x80, CHR 0xE5, CHR 0xA4, CHR 0xB4, CHR 0xE7, CHR 0x9A, CHR 0x84,
      CHR 0xE5, CHR 0x88, CHR 0x86, CHR 0xE4, CHR 0xBA, CHR 0xAB, CHR 0xE9, CHR 0x93, CHR 0xBE,
      CHR 0xE6, CHR 0x8E, CHR 0xA5]"

definition msg_unsupported_host :: string where
  "msg_unsupported_host =
     [CHR 0xE4, CHR 0xB8, CHR 0x8D, CHR 0xE6, CHR 0x94, CHR 0xAF, CHR 0xE6, CHR 0x8C, CHR 0x81,
      CHR 0xE7, CHR 0x9A, CHR 0x84, CHR 0xE9, CHR 0x93, CHR 0xBE, CHR 0xE6, CHR 0x8E, CHR 0xA5,
      CHR 0xE5, CHR 0x9F, CHR 0x9F, CHR 0xE5, CHR 0x90, CHR 0x8D, CHR 0xEF, CHR 0xBC, CHR 0x9A,
      CHR 0xE4, CHR 0xBB, CHR 0x85, CHR 0xE6, CHR 0x94, CHR 0xAF, CHR 0xE6, CHR 0x8C, CHR 0x81] @
     '' OneDrive/SharePoint/'' @
     [CHR 0xE4, CHR 0xB8, CHR 0x96, CHR 0xE7, CHR 0xBA, CHR 0xAA, CHR 0xE4, CHR 0xBA, CHR 0x92,
      CHR 0xE8, CHR 0x81, CHR 0x94, CHR 0xE5, CHR 0x88, CHR 0x86, CHR 0xE4, CHR 0xBA, CHR 0xAB,
      CHR 0xE9, CHR 0x93, CHR 0xBE, CHR 0xE6, CHR 0x8E, CHR 0xA5]"

definition msg_cannot_expand :: string where
  "msg_cannot_expand =
     [CHR 0xE6, CHR 0x97, CHR 0xA0, CHR 0xE6, CHR 0xB3, CHR 0x95, CHR 0xE5, CHR 0xB1, CHR 0x95,
      CHR 0xE5, CHR 0xBC, CHR 0x80, CHR 0xE9, CHR 0x93, CHR 0xBE, CHR 0xE6, CHR 0x8E, CHR 0xA5] @
     '': ''"

text \<open>
  The message of \<^verbatim>\<open>convert_sharepoint_to_direct_link\<close> up to the url: a line asking
  for a standard share link, a line naming the supported format, and the label of the
  current link.
\<close>

definition msg_standard_link :: string where
  "msg_standard_link =
     [CHR 0xE8, CHR 0xAF, CHR 0xB7, CHR 0xE4, CHR 0xBD, CHR 0xBF, CHR 0xE7, CHR 0x94, CHR 0xA8,
      CHR 0xE6, CHR 0xA0, CHR 0x87, CHR 0xE5, CHR 0x87, CHR 0x86, CHR 0xE7, CHR 0x9A, CHR 0x84] @
     '' OneDrive/SharePoint '' @
     [CHR 0xE5, CHR 0x88, CHR 0x86, CHR 0xE4, CHR 0xBA, CHR 0xAB, CHR 0xE9, CHR 0x93, CHR 0xBE,
      CHR 0xE6, CHR 0x8E, CHR 0xA5, CHR 0xE3, CHR 0x80, CHR 0x82] @
     [CHR 0x0A]"

definition msg_supported_format :: string where
  "msg_supported_format =
     [CHR 0xE6, CHR 0x94, CHR 0xAF, CHR 0xE6, CHR 0x8C, CHR 0x81, CHR 0xE6, CHR 0xA0, CHR 0xBC,
      CHR 0xE5, CHR 0xBC, CHR 0x8F] @
     '': https://domain/:u:/g/personal/'' @
     [CHR 0xE7, CHR 0x94, CHR 0xA8, CHR 0xE6, CHR 0x88, CHR 0xB7, CHR 0xE5, CHR 0x90, CHR 0x8D] @
     ''/'' @
     [CHR 0xE5, CHR 0x88, CHR 0x86, CHR 0xE4, CHR 0xBA, CHR 0xAB] @
     ''token'' @
     [CHR 0x0A]"

definition msg_current_link :: string where
  "msg_current_link =
     [CHR 0xE5, CHR 0xBD, CHR 0x93, CHR 0xE5, CHR 0x89, CHR 0x8D, CHR 0xE9, CHR 0x93, CHR 0xBE,
      CHR 0xE6, CHR 0x8E, CHR 0xA5] @
     '': ''"

text \<open>
  \<^verbatim>\<open>normalize_url\<close>: a HEAD request, and a GET when the answer is 405, 403 or a
  redirect; the final url of the last answer. With the result comes the list of the
  requests made.
\<close>

definition normalize_url :: "env \<Rightarrow> string \<Rightarrow> (exn + string) \<times> request list" where
  "normalize_url e original_url =
     (case requests_head e original_url of
        Inl exc \<Rightarrow> (Inl (OneDriveLinkError (msg_cannot_expand @ exc)), [Head original_url])
      | Inr resp \<Rightarrow>
          if status_code resp \<in> {405, 403} \<or> is_redirect resp then
            (case requests_get e original_url of
               Inl exc \<Rightarrow>
                 (Inl (OneDriveLinkError (msg_cannot_expand @ exc)),
                  [Head original_url, Get original_url])
             | Inr resp2 \<Rightarrow> (Inr (resp_url resp2), [Head original_url, Get original_url]))
          else (Inr (resp_url resp), [Head original_url]))"

definition supported_suffixes :: "string list" where
  "supported_suffixes =
     [''1drv.ms'', ''onedrive.live.com'', ''sharepoint.com'', ''my.sharepoint.com'',
      ''sharepoint.cn'', ''my.sharepoint.cn'']"

definition is_onedrive_supported_host :: "env \<Rightarrow> string \<Rightarrow> exn + bool" where
  "is_onedrive_supported_host e url =
     (case urlparse e url of
        Inl err \<Rightarrow> Inl err
      | Inr parsed \<Rightarrow>
          (let host = (case hostname parsed of None \<Rightarrow> [] | Some h \<Rightarrow> h);
               host1 = str_lower host
           in if host1 = [] then Inr False
              else Inr (list_ex (\<lambda>sfx. suffix sfx host1) supported_suffixes)))"

definition is_folder_link :: "env \<Rightarrow> string \<Rightarrow> exn + bool" where
  "is_folder_link e url =
     (case urlparse e url of
        Inl err \<Rightarrow> Inl err
      | Inr parsed \<Rightarrow>
          (let path_lower = str_lower (pr_path parsed) in
           if sublist '':f:'' path_lower then Inr True
           else if sublist '':b:'' path_lower \<or> sublist ''forms/allitems.aspx'' path_lower
           then Inr True
           else Inr False))"

text \<open>
  The pattern \<^verbatim>\<open>/:u:/g/personal/([^/]+)/([^/?#]+)\<close> tried at the start of \<open>s\<close>: both
  groups are greedy, and the character after the first group has to be \<^verbatim>\<open>/\<close>, so
  each group is the longest run of its class.
\<close>

definition sharepoint_match_here :: "string \<Rightarrow> (string \<times> string) option" where
  "sharepoint_match_here s =
     (if prefix ''/:u:/g/personal/'' s then
        (let r = drop (length ''/:u:/g/personal/'') s;
             personal_user = takeWhile (\<lambda>c. c \<noteq> CHR ''/'') r
         in if personal_user = [] then None
            else (case dropWhile (\<lambda>c. c \<noteq> CHR ''/'') r of
                    [] \<Rightarrow> None
                  | _ # t \<Rightarrow>
                      (let share_token = takeWhile (\<lambda>c. c \<notin> set ''/?#'') t in
                       if share_token = [] then None
                       else Some (personal_user, share_token))))
      else None)"

text \<open>\<^verbatim>\<open>re.search\<close>: the match at the leftmost position that has one.\<close>

fun re_search_sharepoint :: "string \<Rightarrow> (string \<times> string) option" where
  "re_search_sharepoint [] = sharepoint_match_here []"
| "re_search_sharepoint (c # cs) =
     (case sharepoint_match_here (c # cs) of
        Some m \<Rightarrow> Some m
      | None \<Rightarrow> re_search_sharepoint cs)"

definition convert_sharepoint_to_direct_link :: "env \<Rightarrow> string \<Rightarrow> exn + string" where
  "convert_sharepoint_to_direct_link e url =
     (case urlparse e url of
        Inl err \<Rightarrow> Inl err
      | Inr parsed \<Rightarrow>
          (let domain = pr_netloc parsed;
               path = pr_path parsed
           in case re_search_sharepoint path of
                Some (personal_user, share_token) \<Rightarrow>
                  Inr (''https://'' @ domain @ ''/personal/'' @ personal_user @
                       ''/_layouts/52/download.aspx?share='' @ share_token)
              | None \<Rightarrow>
                  Inl (OneDriveLinkError
                         (msg_standard_link @ msg_supported_format @ msg_current_link @ url))))"

definition ensure_download_param_fallback :: "env \<Rightarrow> string \<Rightarrow> exn + string" where
  "ensure_download_param_fallback e url =
     (case urlparse e url of
        Inl err \<Rightarrow> Inl err
      | Inr parsed \<Rightarrow>
          (let query_pairs = dict_of (parse_qsl (pr_query parsed));
               query_pairs2 =
                 (if ''download'' \<notin> set (map (\<lambda>kv. str_lower (fst kv)) query_pairs)
                  then AList.update ''download'' ''1'' query_pairs
                  else query_pairs);
               new_query = urlencode query_pairs2
           in Inr (urlunparse (pr_scheme parsed, pr_netloc parsed, pr_path parsed,
                               pr_params parsed, new_query, pr_fragment parsed))))"

definition convert_personal_onedrive_to_direct_link :: "env \<Rightarrow> string \<Rightarrow> exn + string" where
  "convert_personal_onedrive_to_direct_link e url =
     (case urlparse e url of
        Inl err \<Rightarrow> Inl err
      | Inr parsed \<Rightarrow>
          (let query_params = dict_of (parse_qsl (pr_query parsed)) in
           case map_of query_params ''redeem'' of
             Some redeem_value \<Rightarrow> Inr (''https://dlink.host/1drv/'' @ redeem_value)
           | None \<Rightarrow>
               (case (map_of query_params ''resid'', map_of query_params ''authkey'') of
                  (Some file_id, Some authkey) \<Rightarrow>
                    Inr (''https://onedrive.live.com/download?resid='' @ file_id @
                         ''&authkey='' @ authkey)
                | _ \<Rightarrow> ensure_download_param_fallback e url)))"

text \<open>
  \<^verbatim>\<open>re.match(r"^https?://", input_url, flags=re.IGNORECASE)\<close>. Ignoring case, the
  letters match themselves in both cases, and \<^verbatim>\<open>s\<close> also matches U+017F (the long s,
  \<^verbatim>\<open>C5 BF\<close> in UTF-8).
\<close>

definition re_match_http :: "string \<Rightarrow> bool" where
  "re_match_http s =
     (str_lower (take 4 s) = ''http'' \<and>
      (let r = drop 4 s in
       prefix ''://'' r \<or>
       prefix ''s://'' r \<or> prefix ''S://'' r \<or>
       prefix ([CHR 0xC5, CHR 0xBF] @ ''://'') r))"

text \<open>
  \<^verbatim>\<open>parse_onedrive_direct_link\<close>: the result, and the requests made on the way.
  What the program prints is not modelled.
\<close>

definition parse_onedrive_direct_link :: "env \<Rightarrow> string \<Rightarrow> (exn + string) \<times> request list" where
  "parse_onedrive_direct_link e input_url =
     (if \<not> re_match_http input_url then (Inl (OneDriveLinkError msg_need_http), [])
      else (case is_onedrive_supported_host e input_url of
              Inl err \<Rightarrow> (Inl err, [])
            | Inr False \<Rightarrow> (Inl (OneDriveLinkError msg_unsupported_host), [])
            | Inr True \<Rightarrow>
                (case urlparse e input_url of
                   Inl err \<Rightarrow> (Inl err, [])
                 | Inr parsed \<Rightarrow>
                     (let host = str_lower (pr_netloc parsed) in
                      if list_ex (\<lambda>domain. sublist domain host)
                           [''sharepoint.com'', ''sharepoint.cn'', ''my.sharepoint'']
                      then (convert_sharepoint_to_direct_link e input_url, [])
                      else (case normalize_url e input_url of
                              (Inl err, reqs) \<Rightarrow> (Inl err, reqs)
                            | (Inr expanded, reqs) \<Rightarrow>
                                (convert_personal_onedrive_to_direct_link e expanded, reqs))))))"

text \<open>
  The first check in the words of the specification, read without regard to case: the
  input is \<^verbatim>\<open>http\<close> or \<^verbatim>\<open>https\<close> in any mix of cases, then \<^verbatim>\<open>://\<close>. Python's
  \<^verbatim>\<open>re.IGNORECASE\<close> also takes U+017F for the \<^verbatim>\<open>s\<close>.
\<close>

definition http_prefixed :: "string \<Rightarrow> bool" where
  "http_prefixed url =
     (\<exists>p rest. url = p @ ''://'' @ rest \<and>
        (str_lower p = ''http'' \<or> str_lower p = ''https'' \<or>
         (\<exists>q. p = q @ [CHR 0xC5, CHR 0xBF] \<and> str_lower q = ''http'')))"

text \<open>
  The enterprise pattern in the words of the specification. \<open>pattern_here s user token\<close>:
  \<open>s\<close> starts with \<^verbatim>\<open>/:u:/g/personal/<user>/<token>\<close>, the user a maximal run without
  \<^verbatim>\<open>/\<close>, the token a maximal run without \<^verbatim>\<open>/ ? #\<close>. \<open>path_matches path\<close>: the pattern
  occurs somewhere in the path.
\<close>

definition pattern_here :: "string \<Rightarrow> string \<Rightarrow> string \<Rightarrow> bool" where
  "pattern_here s user token =
     (\<exists>rest. s = ''/:u:/g/personal/'' @ user @ ''/'' @ token @ rest \<and>
        user \<noteq> [] \<and> CHR ''/'' \<notin> set user \<and>
        token \<noteq> [] \<and> (\<forall>c\<in>set token. c \<notin> set ''/?#'') \<and>
        (rest = [] \<or> hd rest \<in> set ''/?#''))"

definition path_matches :: "string \<Rightarrow> bool" where
  "path_matches path =
     (\<exists>pre user token rest. path = pre @ ''/:u:/g/personal/'' @ user @ ''/'' @ token @ rest \<and>
        user \<noteq> [] \<and> CHR ''/'' \<notin> set user \<and>
        token \<noteq> [] \<and> (\<forall>c\<in>set token. c \<notin> set ''/?#''))"

text \<open>
  Urls of a plain shape, in the words of the specification: a scheme, \<^verbatim>\<open>://\<close>, a
  network location, a path, and when they are not empty a \<^verbatim>\<open>?\<close> with the query and
  a \<^verbatim>\<open>#\<close> with the fragment. The parts are plain when the scheme is \<^verbatim>\<open>http\<close> or
  \<^verbatim>\<open>https\<close>, the network location is ASCII without \<^verbatim>\<open>/ ? # [ ]\<close>, the path is empty
  or starts with \<^verbatim>\<open>/\<close> and has no \<^verbatim>\<open>? # ;\<close>, the query has no \<^verbatim>\<open>#\<close>, and nothing
  holds a tab, a carriage return or a newline.
\<close>

definition build_url :: "string \<Rightarrow> string \<Rightarrow> string \<Rightarrow> string \<Rightarrow> string \<Rightarrow> string" where
  "build_url scheme netloc path query fragment =
     scheme @ ''://'' @ netloc @ path @
     (if query = [] then [] else ''?'' @ query) @
     (if fragment = [] then [] else ''#'' @ fragment)"

definition plain_url_parts :: "string \<Rightarrow> string \<Rightarrow> string \<Rightarrow> string \<Rightarrow> string \<Rightarrow> bool" where
  "plain_url_parts scheme netloc path query fragment =
     ((scheme = ''http'' \<or> scheme = ''https'') \<and>
      (\<forall>c\<in>set netloc. \<not> digit7 c \<and> c \<notin> set ''/?#[]'' \<and> \<not> unsafe_url_byte c) \<and>
      (path = [] \<or> hd path = CHR ''/'') \<and>
      (\<forall>c\<in>set path. c \<notin> set ''?#;'' \<and> \<not> unsafe_url_byte c) \<and>
      (\<forall>c\<in>set query. c \<noteq> CHR ''#'' \<and> \<not> unsafe_url_byte c) \<and>
      (\<forall>c\<in>set fragment. \<not> unsafe_url_byte c))"

text \<open>
  A query written out from its parameters: \<^verbatim>\<open>name=value\<close> fields joined by \<^verbatim>\<open>&\<close>.
  A text is unreserved when all its characters are letters, digits or \<^verbatim>\<open>_ . - ~\<close>,
  the characters that percent-encoding leaves alone.
\<close>

definition unreserved :: "string \<Rightarrow> bool" where
  "unreserved s = (\<forall>c\<in>set s. c \<in> set always_safe)"

definition field_text :: "string \<times> string \<Rightarrow> string" where
  "field_text kv = fst kv @ ''='' @ snd kv"

definition query_text :: "(string \<times> string) list \<Rightarrow> string" where
  "query_text kvs = str_join ''&'' (map field_text kvs)"

text \<open>
  A name or a value is written the way \<^verbatim>\<open>urlencode\<close> writes it when decoding it and
  encoding it again gives the same text: letters, digits and \<^verbatim>\<open>_ . - ~\<close> stand for
  themselves, \<^verbatim>\<open>+\<close> for a space, and \<^verbatim>\<open>%XX\<close> with upper-case digits for every other
  byte (\<^verbatim>\<open>ABC%21123\<close> and \<^verbatim>\<open>a+b\<close> are, \<^verbatim>\<open>a/b\<close> and \<^verbatim>\<open>a%2fb\<close> are not).
\<close>

definition urlencoded :: "string \<Rightarrow> bool" where
  "urlencoded s = (quote_plus (unquote_plus s) [] = s)"

text \<open>
  The parameters with \<^verbatim>\<open>download=1\<close> put last unless a name is \<^verbatim>\<open>download\<close> already,
  in any case of its letters.
\<close>

definition with_download :: "(string \<times> string) list \<Rightarrow> (string \<times> string) list" where
  "with_download kvs =
     (if ''download'' \<in> set (map (\<lambda>kv. str_lower (fst kv)) kvs) then kvs
      else kvs @ [(''download'', ''1'')])"




text \<open>
  A sample environment: no normalisation, no address accepted, and a network on which
  one short link answers 200 with its expanded url and every other request fails.
\<close>

definition example_env :: env where
  "example_env =
     \<lparr>nfkc = (\<lambda>s. s), ip_address = (\<lambda>s. None),
      requests_head =
        (\<lambda>u. if u = ''https://1drv.ms/u/s!AbCdEf''
             then Inr \<lparr>status_code = 200, is_redirect = False,
                       resp_url = ''https://onedrive.live.com/redir?resid=111!222&authkey=xyz''\<rparr>
             else Inl ''connection refused''),
      requests_get = (\<lambda>u. Inl ''connection refused'')\<rparr>"

section \<open>The history store (\<^verbatim>\<open>load_history\<close>, \<^verbatim>\<open>save_history_to_file\<close>, \<^verbatim>\<open>save_history\<close>)\<close>

text \<open>
  One entry of \<^verbatim>\<open>onedrive_history.json\<close>: the dict
  \<^verbatim>\<open>{'id', 'url', 'remark', 'timestamp', 'original_url'}\<close> built by \<^verbatim>\<open>save_history\<close>.
\<close>

record history_item =
  item_id :: int
  item_url :: string
  item_remark :: string
  item_timestamp :: string
  item_original_url :: string

text \<open>
  The JSON body of \<^verbatim>\<open>POST /save_history\<close>; a key that is absent is \<^const>\<open>None\<close>.
  The body itself is \<^const>\<open>None\<close> when \<^verbatim>\<open>request.get_json()\<close> is falsy.
\<close>

record save_request =
  req_url :: "string option"
  req_id :: "int option"
  req_remark :: "string option"
  req_timestamp :: "string option"
  req_original_url :: "string option"

text \<open>What \<^verbatim>\<open>datetime.now()\<close> gives for the two defaults.\<close>

record clock =
  now_ms :: int
  now_text :: string

text \<open>
  The file is \<^const>\<open>None\<close> when it does not exist or does not hold JSON
  (\<^verbatim>\<open>load_history\<close> gives \<^verbatim>\<open>[]\<close> for both), and \<open>Some h\<close> when it holds the list \<open>h\<close>
  of entries. Writing either succeeds or fails, leaving some file behind.
\<close>

type_synonym history_file = "history_item list option"

datatype disk = WriteOk | WriteFails history_file

datatype save_response = Saved | MissingParameter | SaveFailed

fun success :: "save_response \<Rightarrow> bool" where
  "success Saved = True"
| "success MissingParameter = False"
| "success SaveFailed = False"

definition load_history :: "history_file \<Rightarrow> history_item list" where
  "load_history stored = (case stored of None \<Rightarrow> [] | Some h \<Rightarrow> h)"

definition save_history_to_file :: "disk \<Rightarrow> history_item list \<Rightarrow> bool \<times> history_file" where
  "save_history_to_file d history_data =
     (case d of WriteOk \<Rightarrow> (True, Some history_data) | WriteFails left \<Rightarrow> (False, left))"

text \<open>The default remark, \<^verbatim>\<open>'\<close>(unnamed file)\<^verbatim>\<open>'\<close> in Chinese, as UTF-8.\<close>

definition default_remark :: string where
  "default_remark =
     [CHR 0xE6, CHR 0x9C, CHR 0xAA, CHR 0xE5, CHR 0x91, CHR 0xBD, CHR 0xE5, CHR 0x90,
      CHR 0x8D, CHR 0xE6, CHR 0x96, CHR 0x87, CHR 0xE4, CHR 0xBB, CHR 0xB6]"

definition make_item :: "clock \<Rightarrow> save_request \<Rightarrow> string \<Rightarrow> history_item" where
  "make_item clk d u =
     \<lparr> item_id = (case req_id d of Some i \<Rightarrow> i | None \<Rightarrow> now_ms clk),
       item_url = u,
       item_remark = (case req_remark d of Some r \<Rightarrow> r | None \<Rightarrow> default_remark),
       item_timestamp = (case req_timestamp d of Some t \<Rightarrow> t | None \<Rightarrow> now_text clk),
       item_original_url = (case req_original_url d of Some v \<Rightarrow> v | None \<Rightarrow> []) \<rparr>"

text \<open>
  \<^verbatim>\<open>next((i for i, item in enumerate(history) if item['url'] == history_item['url']), -1)\<close>:
  the first index holding the url, \<^const>\<open>None\<close> for \<^verbatim>\<open>-1\<close>.
\<close>

fun existing_index :: "string \<Rightarrow> history_item list \<Rightarrow> nat option" where
  "existing_index u [] = None"
| "existing_index u (x # xs) =
     (if item_url x = u then Some 0 else map_option Suc (existing_index u xs))"

text \<open>The update of the list: overwrite in place or insert in front, then keep 100.\<close>

definition merge_item :: "history_item \<Rightarrow> history_item list \<Rightarrow> history_item list" where
  "merge_item it history =
     (let history1 = (case existing_index (item_url it) history of
                        Some i \<Rightarrow> history[i := it]
                      | None \<Rightarrow> it # history)
      in if length history1 > 100 then take 100 history1 else history1)"

definition save_history ::
  "clock \<Rightarrow> disk \<Rightarrow> save_request option \<Rightarrow> history_file \<Rightarrow> save_response \<times> history_file" where
  "save_history clk d data stored =
     (case data of
        None \<Rightarrow> (MissingParameter, stored)
      | Some body \<Rightarrow>
          (case req_url body of
             None \<Rightarrow> (MissingParameter, stored)
           | Some u \<Rightarrow>
               (let history = load_history stored;
                    history_item = make_item clk body u;
                    history2 = merge_item history_item history
                in case save_history_to_file d history2 of
                     (True, stored2) \<Rightarrow> (Saved, stored2)
                   | (False, stored2) \<Rightarrow> (SaveFailed, stored2))))"

text \<open>A run of requests that all carry a url and all reach the disk.\<close>

fun save_all :: "(clock \<times> save_request) list \<Rightarrow> history_file \<Rightarrow> history_file" where
  "save_all [] stored = stored"
| "save_all ((clk, body) # rs) stored = save_all rs (snd (save_history clk WriteOk (Some body) stored))"

definition request_item :: "clock \<times> save_request \<Rightarrow> history_item" where
  "request_item r = make_item (fst r) (snd r) (case req_url (snd r) of Some u \<Rightarrow> u | None \<Rightarrow> [])"

text \<open>Sample data: a clock, a request that carries only a url, a stored entry.\<close>

definition example_clock :: clock where
  "example_clock = \<lparr>now_ms = 1700000000000, now_text = ''2023-11-14 22:13:20''\<rparr>"

definition example_request :: "string \<Rightarrow> save_request" where
  "example_request u =
     \<lparr>req_url = Some u, req_id = None, req_remark = None, req_timestamp = None,
      req_original_url = None\<rparr>"

definition example_entry :: "nat \<Rightarrow> history_item" where
  "example_entry n =
     \<lparr>item_id = int n, item_url = replicate (Suc n) CHR ''x'', item_remark = ''file'',
      item_timestamp = ''2023-11-14 22:13:20'', item_original_url = []\<rparr>"

section \<open>Properties\<close>

subsection \<open>Facts about the history store\<close>

lemma load_history_Some [simp]: "load_history (Some h) = h"
  by (simp add: load_history_def)

lemma load_history_None [simp]: "load_history None = []"
  by (simp add: load_history_def)

lemma existing_index_None: "existing_index u h = None \<longleftrightarrow> u \<notin> set (map item_url h)"
  by (induction h) auto

lemma existing_index_Some:
  "existing_index u h = Some i \<Longrightarrow> i < length h \<and> item_url (h ! i) = u"
proof (induction h arbitrary: i)
  case Nil
  then show ?case by simp
next
  case (Cons x xs)
  then show ?case by (cases "item_url x = u") auto
qed

lemma urls_list_update:
  assumes "existing_index (item_url it) h = Some i"
  shows "map item_url (h[i := it]) = map item_url h"
proof -
  from existing_index_Some[OF assms] have "i < length h" and "item_url (h ! i) = item_url it"
    by simp_all
  then show ?thesis
    by (simp add: map_update list_update_same_conv)
qed

lemma merge_item_length: "length (merge_item it h) \<le> 100"
  by (simp add: merge_item_def Let_def)

lemma merge_item_distinct:
  assumes "distinct (map item_url h)"
  shows "distinct (map item_url (merge_item it h))"
proof (cases "existing_index (item_url it) h")
  case None
  then have "item_url it \<notin> set (map item_url h)" by (simp add: existing_index_None)
  with assms have "distinct (map item_url (it # h))" by simp
  then have "distinct (map item_url (take 100 (it # h)))"
    unfolding take_map[symmetric] by (rule distinct_take)
  with None \<open>distinct (map item_url (it # h))\<close> show ?thesis
    by (simp add: merge_item_def Let_def del: take_Suc_Cons)
next
  case (Some i)
  have "distinct (map item_url (take 100 (h[i := it])))"
    unfolding take_map[symmetric] urls_list_update[OF Some] using assms by (rule distinct_take)
  with Some assms show ?thesis
    by (simp add: merge_item_def Let_def urls_list_update)
qed

lemma merge_item_member:
  assumes "length h \<le> 100"
  shows "it \<in> set (merge_item it h)"
proof (cases "existing_index (item_url it) h")
  case None
  then show ?thesis by (simp add: merge_item_def Let_def)
next
  case (Some i)
  with existing_index_Some[OF Some] assms show ?thesis
    by (simp add: merge_item_def Let_def set_update_memI)
qed

lemma filter_url_single:
  "distinct (map item_url h) \<Longrightarrow> it \<in> set h \<Longrightarrow> filter (\<lambda>x. item_url x = item_url it) h = [it]"
proof (induction h)
  case Nil
  then show ?case by simp
next
  case (Cons x xs)
  show ?case
  proof (cases "x = it")
    case True
    with Cons.prems have "\<forall>y\<in>set xs. item_url y \<noteq> item_url it"
      by (fastforce simp: image_iff)
    then have "filter (\<lambda>y. item_url y = item_url it) xs = []" by (simp add: filter_empty_conv)
    with True show ?thesis by simp
  next
    case False
    with Cons.prems have "it \<in> set xs" by simp
    with Cons.prems have "item_url x \<noteq> item_url it" by force
    with Cons \<open>it \<in> set xs\<close> show ?thesis by simp
  qed
qed

lemma merge_item_fresh:
  assumes "item_url it \<notin> set (map item_url h)"
  shows "merge_item it h = take 100 (it # h)"
proof -
  from assms have "existing_index (item_url it) h = None" by (simp add: existing_index_None)
  then show ?thesis by (simp add: merge_item_def Let_def del: take_Suc_Cons)
qed

lemma merge_item_existing:
  assumes "item_url it \<in> set (map item_url h)" and "length h \<le> 100"
  shows "map item_url (merge_item it h) = map item_url h"
proof -
  from assms(1) obtain i where i: "existing_index (item_url it) h = Some i"
    using existing_index_None[of "item_url it" h] by (cases "existing_index (item_url it) h") auto
  with assms(2) have "merge_item it h = h[i := it]" by (simp add: merge_item_def Let_def)
  with urls_list_update[OF i] show ?thesis by simp
qed

lemma save_history_Saved:
  assumes "save_history clk d data stored = (resp, stored2)" and "success resp"
  shows "\<exists>body u. data = Some body \<and> req_url body = Some u \<and> d = WriteOk \<and>
           stored2 = Some (merge_item (make_item clk body u) (load_history stored))"
  using assms
  by (auto simp: save_history_def save_history_to_file_def Let_def
      split: option.splits disk.splits)

lemma save_history_WriteOk:
  "req_url body = Some u \<Longrightarrow>
   save_history clk WriteOk (Some body) stored =
     (Saved, Some (merge_item (make_item clk body u) (load_history stored)))"
  by (simp add: save_history_def save_history_to_file_def Let_def)

lemma take_append_take: "take n (xs @ take n ys) = take n (xs @ ys)"
  by (induction xs arbitrary: n) (auto simp: take_Cons split: nat.splits)

lemma save_all_history:
  assumes "\<forall>r\<in>set reqs. req_url (snd r) \<noteq> None"
    and "distinct (map (\<lambda>q. item_url (request_item q)) reqs)"
    and "set (map (\<lambda>q. item_url (request_item q)) reqs) \<inter> set (map item_url (load_history stored)) = {}"
    and "length (load_history stored) \<le> 100"
  shows "load_history (save_all reqs stored) =
           take 100 (rev (map request_item reqs) @ load_history stored)"
  using assms
proof (induction reqs arbitrary: stored)
  case Nil
  then show ?case by simp
next
  case (Cons r rs)
  obtain clk body where r: "r = (clk, body)" by (cases r)
  from Cons.prems(1) r obtain u where u: "req_url body = Some u" by auto
  let ?it = "make_item clk body u"
  have it: "request_item r = ?it" by (simp add: request_item_def r u)
  let ?stored2 = "Some (merge_item ?it (load_history stored))"
  have step: "save_all (r # rs) stored = save_all rs ?stored2"
    by (simp add: r save_history_WriteOk[OF u])
  from Cons.prems(3) it have fresh: "item_url ?it \<notin> set (map item_url (load_history stored))"
    by auto
  have merged: "load_history ?stored2 = take 100 (?it # load_history stored)"
    by (simp add: merge_item_fresh[OF fresh] del: take_Suc_Cons)
  have disj: "set (map (\<lambda>q. item_url (request_item q)) rs) \<inter> set (map item_url (load_history ?stored2)) = {}"
  proof -
    have "set (map item_url (load_history ?stored2)) \<subseteq> set (map item_url (?it # load_history stored))"
      unfolding merged by (metis set_take_subset take_map)
    moreover from Cons.prems(2,3) it
    have "set (map (\<lambda>q. item_url (request_item q)) rs) \<inter> set (map item_url (?it # load_history stored)) = {}"
      by auto
    ultimately show ?thesis by blast
  qed
  have len: "length (load_history ?stored2) \<le> 100"
    by (simp add: merge_item_length)
  from Cons.prems have "\<forall>r\<in>set rs. req_url (snd r) \<noteq> None"
    and "distinct (map (\<lambda>q. item_url (request_item q)) rs)" by simp_all
  from Cons.IH[OF this disj len]
  have "load_history (save_all rs ?stored2) =
          take 100 (rev (map request_item rs) @ load_history ?stored2)" .
  also have "\<dots> = take 100 (rev (map request_item rs) @ ?it # load_history stored)"
    unfolding merged by (rule take_append_take)
  finally show ?case by (simp add: step it del: take_Suc_Cons)
qed

lemma save_history_unchanged:
  "req_url body = None \<Longrightarrow> save_history clk WriteOk (Some body) stored = (MissingParameter, stored)"
  by (simp add: save_history_def)

lemma save_all_invariant:
  assumes "distinct (map item_url (load_history stored))" and "length (load_history stored) \<le> 100"
  shows "distinct (map item_url (load_history (save_all reqs stored))) \<and>
         length (load_history (save_all reqs stored)) \<le> 100"
  using assms
proof (induction reqs arbitrary: stored)
  case Nil
  then show ?case by simp
next
  case (Cons r rs)
  obtain clk body where r: "r = (clk, body)" by (cases r)
  show ?case
  proof (cases "req_url body")
    case None
    with Cons r show ?thesis by (simp add: save_history_unchanged)
  next
    case (Some u)
    let ?stored2 = "Some (merge_item (make_item clk body u) (load_history stored))"
    have "distinct (map item_url (load_history ?stored2))"
      using Cons.prems(1) by (simp add: merge_item_distinct)
    moreover have "length (load_history ?stored2) \<le> 100"
      by (simp add: merge_item_length)
    ultimately show ?thesis
      using Cons.IH[of ?stored2] by (simp add: r save_history_WriteOk[OF Some])
  qed
qed

lemma save_history_step:
  assumes "save_history clk d data stored = (resp, stored2)" and "success resp"
    and "distinct (map item_url (load_history stored))" and "length (load_history stored) \<le> 100"
  shows "\<exists>body u h. data = Some body \<and> req_url body = Some u \<and> stored2 = Some h \<and>
           distinct (map item_url h) \<and> length h \<le> 100 \<and>
           filter (\<lambda>x. item_url x = u) h = [make_item clk body u] \<and>
           (u \<in> set (map item_url (load_history stored)) \<longrightarrow>
              map item_url h = map item_url (load_history stored)) \<and>
           (u \<notin> set (map item_url (load_history stored)) \<longrightarrow>
              h = take 100 (make_item clk body u # load_history stored)) \<and>
           (u \<notin> set (map item_url (load_history stored)) \<and> length (load_history stored) = 100 \<longrightarrow>
              h = make_item clk body u # butlast (load_history stored) \<and> length h = 100)"
proof -
  from save_history_Saved[OF assms(1,2)] obtain body u where
    data: "data = Some body" and u: "req_url body = Some u" and
    st: "stored2 = Some (merge_item (make_item clk body u) (load_history stored))"
    by blast
  let ?it = "make_item clk body u"
  let ?h = "merge_item ?it (load_history stored)"
  have url: "item_url ?it = u" by (simp add: make_item_def)
  have d: "distinct (map item_url ?h)" using assms(3) by (rule merge_item_distinct)
  have l: "length ?h \<le> 100" by (rule merge_item_length)
  have "filter (\<lambda>x. item_url x = item_url ?it) ?h = [?it]"
    using d merge_item_member[OF assms(4)] by (rule filter_url_single)
  then have f: "filter (\<lambda>x. item_url x = u) ?h = [?it]" by (simp only: url)
  have fresh: "u \<notin> set (map item_url (load_history stored)) \<Longrightarrow>
      ?h = take 100 (?it # load_history stored)"
    using merge_item_fresh[of ?it "load_history stored"] unfolding url by blast
  have full: "?h = ?it # butlast (load_history stored) \<and> length ?h = 100"
    if "u \<notin> set (map item_url (load_history stored))" and "length (load_history stored) = 100"
  proof -
    have "take 99 (load_history stored) = butlast (load_history stored)"
      using that(2) by (simp add: butlast_conv_take)
    with fresh[OF that(1)] that(2) show ?thesis by simp
  qed
  have inplace: "u \<in> set (map item_url (load_history stored)) \<Longrightarrow>
      map item_url ?h = map item_url (load_history stored)"
    using merge_item_existing[of ?it "load_history stored"] assms(4) unfolding url by blast
  from data u st d l f inplace fresh full show ?thesis by blast
qed

subsection \<open>Facts about the first check\<close>

lemmas url_defs = urlparse_def urlsplit_def urlsplit_rest_def split_scheme_def splitnetloc_def
  checknetloc_def isascii_def str_find_def str_lower_def lower_char_def isalpha_ascii_def
  scheme_chars_def c0_control_or_space_def unsafe_url_byte_def uses_params_def str_split1_def
  str_partition_def str_rpartition_def

lemma lower_char_s: "lower_char c = CHR ''s'' \<Longrightarrow> c = CHR ''s'' \<or> c = CHR ''S''"
  by (auto simp: lower_char_def split: if_splits)

lemma str_lower_append: "str_lower (a @ b) = str_lower a @ str_lower b"
  by (simp add: str_lower_def)

lemma str_lower_length: "length (str_lower s) = length s"
  by (simp add: str_lower_def)

lemma re_match_http_imp:
  assumes "re_match_http url"
  shows "http_prefixed url"
proof -
  let ?h = "take 4 url" and ?r = "drop 4 url"
  from assms have h: "str_lower ?h = ''http''"
    and r: "prefix ''://'' ?r \<or> prefix ''s://'' ?r \<or> prefix ''S://'' ?r \<or>
            prefix ([CHR 0xC5, CHR 0xBF] @ ''://'') ?r"
    by (simp_all add: re_match_http_def Let_def)
  have u: "url = ?h @ ?r" by simp
  from r consider (a) rest where "?r = ''://'' @ rest" | (b) rest where "?r = ''s://'' @ rest"
    | (c) rest where "?r = ''S://'' @ rest"
    | (d) rest where "?r = [CHR 0xC5, CHR 0xBF] @ ''://'' @ rest"
    unfolding prefix_def by auto
  then show ?thesis
  proof cases
    case a
    with u h show ?thesis unfolding http_prefixed_def by metis
  next
    case b
    then have "url = (?h @ ''s'') @ ''://'' @ rest"
      using u by (metis append.assoc append_Cons append_Nil)
    moreover have "str_lower (?h @ ''s'') = ''https''"
      using h by (simp add: str_lower_append) (simp add: str_lower_def lower_char_def)
    ultimately show ?thesis unfolding http_prefixed_def by blast
  next
    case c
    then have "url = (?h @ ''S'') @ ''://'' @ rest"
      using u by (metis append.assoc append_Cons append_Nil)
    moreover have "str_lower (?h @ ''S'') = ''https''"
      using h by (simp add: str_lower_append) (simp add: str_lower_def lower_char_def)
    ultimately show ?thesis unfolding http_prefixed_def by blast
  next
    case d
    then have "url = (?h @ [CHR 0xC5, CHR 0xBF]) @ ''://'' @ rest"
      using u by (metis append.assoc)
    with h show ?thesis unfolding http_prefixed_def by blast
  qed
qed

lemma http_prefixed_imp:
  assumes "http_prefixed url"
  shows "re_match_http url"
proof -
  from assms obtain p rest where u: "url = p @ ''://'' @ rest"
    and p: "str_lower p = ''http'' \<or> str_lower p = ''https'' \<or>
         (\<exists>q. p = q @ [CHR 0xC5, CHR 0xBF] \<and> str_lower q = ''http'')"
    unfolding http_prefixed_def by blast
  from p consider (a) "str_lower p = ''http''" | (b) "str_lower p = ''https''"
    | (c) q where "p = q @ [CHR 0xC5, CHR 0xBF]" "str_lower q = ''http''" by blast
  then show ?thesis
  proof cases
    case a
    then have "length p = 4" using str_lower_length[of p] by simp
    with a u show ?thesis by (simp add: re_match_http_def)
  next
    case b
    then have l: "length p = 5" using str_lower_length[of p] by simp
    then obtain q c where q: "p = q @ [c]" and lq: "length q = 4"
      by (cases p rule: rev_cases) auto
    from b q lq have "str_lower q = ''http''" and "lower_char c = CHR ''s''"
      by (simp_all add: str_lower_def)
    with lower_char_s[of c] u q lq show ?thesis by (auto simp: re_match_http_def)
  next
    case c
    then have "length q = 4" using str_lower_length[of q] by simp
    with c u show ?thesis by (simp add: re_match_http_def)
  qed
qed

lemma re_match_http_iff: "re_match_http url \<longleftrightarrow> http_prefixed url"
  using re_match_http_imp http_prefixed_imp by blast

text \<open>A \<^verbatim>\<open>ValueError\<close> of \<^verbatim>\<open>urlparse\<close> leaves the program as it is, uncaught.\<close>

lemma urlparse_error_escapes:
  "http_prefixed url \<Longrightarrow> urlparse e url = Inl err \<Longrightarrow>
   parse_onedrive_direct_link e url = (Inl err, [])"
  by (simp add: parse_onedrive_direct_link_def re_match_http_iff is_onedrive_supported_host_def)

subsection \<open>Facts about the enterprise pattern\<close>

lemma takeWhile_run:
  "\<forall>x\<in>set xs. P x \<Longrightarrow> ys = [] \<or> \<not> P (hd ys) \<Longrightarrow> takeWhile P (xs @ ys) = xs"
  by (induction xs) (auto simp: takeWhile_eq_Nil_iff)

lemma dropWhile_run:
  "\<forall>x\<in>set xs. P x \<Longrightarrow> ys = [] \<or> \<not> P (hd ys) \<Longrightarrow> dropWhile P (xs @ ys) = ys"
  by (induction xs) (auto simp: dropWhile_eq_self_iff)

lemma pattern_here_match:
  assumes "pattern_here s user token"
  shows "sharepoint_match_here s = Some (user, token)"
proof -
  from assms obtain rest where s: "s = ''/:u:/g/personal/'' @ user @ ''/'' @ token @ rest"
    and u: "user \<noteq> []" "CHR ''/'' \<notin> set user"
    and t: "token \<noteq> []" "\<forall>c\<in>set token. c \<notin> set ''/?#''"
    and r: "rest = [] \<or> hd rest \<in> set ''/?#''"
    unfolding pattern_here_def by blast
  have p: "prefix ''/:u:/g/personal/'' s" unfolding s by simp
  have d: "drop (length ''/:u:/g/personal/'') s = user @ ''/'' @ token @ rest" unfolding s by simp
  have tu: "takeWhile (\<lambda>c. c \<noteq> CHR ''/'') (user @ ''/'' @ token @ rest) = user"
    using u(2) by (intro takeWhile_run) auto
  have du: "dropWhile (\<lambda>c. c \<noteq> CHR ''/'') (user @ ''/'' @ token @ rest) = ''/'' @ token @ rest"
    using u(2) by (intro dropWhile_run) auto
  have tt: "takeWhile (\<lambda>c. c \<notin> set ''/?#'') (token @ rest) = token"
    using t(2) r by (intro takeWhile_run) auto
  show ?thesis
    unfolding sharepoint_match_here_def Let_def d tu du using p u(1) t(1) tt by simp
qed

lemma match_pattern_here:
  assumes "sharepoint_match_here s = Some (user, token)"
  shows "pattern_here s user token"
proof -
  define r where "r = drop (length ''/:u:/g/personal/'') s"
  let ?P = "\<lambda>c. c \<noteq> CHR ''/''" and ?Q = "\<lambda>c. c \<notin> set ''/?#''"
  from assms have p: "prefix ''/:u:/g/personal/'' s"
    by (simp add: sharepoint_match_here_def split: if_splits)
  then have s: "s = ''/:u:/g/personal/'' @ r"
    unfolding r_def by (metis append_eq_conv_conj prefix_def)
  from assms p have m: "(let personal_user = takeWhile ?P r
         in if personal_user = [] then None
            else (case dropWhile ?P r of
                    [] \<Rightarrow> None
                  | _ # t \<Rightarrow>
                      (let share_token = takeWhile ?Q t in
                       if share_token = [] then None
                       else Some (personal_user, share_token)))) = Some (user, token)"
    unfolding sharepoint_match_here_def r_def Let_def by simp
  then obtain c t where u: "user = takeWhile ?P r" "user \<noteq> []"
    and dw: "dropWhile ?P r = c # t" and tk: "token = takeWhile ?Q t" "token \<noteq> []"
    by (auto simp: Let_def split: if_splits list.splits)
  from dw have c: "c = CHR ''/''"
    using hd_dropWhile[of ?P r] by auto
  have "r = takeWhile ?P r @ dropWhile ?P r" by simp
  also have "\<dots> = user @ ''/'' @ t" unfolding dw c u(1) by simp
  also have "t = takeWhile ?Q t @ dropWhile ?Q t" by simp
  finally have r: "r = user @ ''/'' @ token @ dropWhile ?Q t" unfolding tk(1) .
  have "CHR ''/'' \<notin> set user" unfolding u(1) by (auto dest: set_takeWhileD)
  moreover have "\<forall>c\<in>set token. c \<notin> set ''/?#''" unfolding tk(1) by (auto dest: set_takeWhileD)
  moreover have "dropWhile ?Q t = [] \<or> hd (dropWhile ?Q t) \<in> set ''/?#''"
    using hd_dropWhile[of ?Q t] by blast
  ultimately show ?thesis
    unfolding pattern_here_def using s r u(2) tk(2) by metis
qed

lemma re_search_here:
  "sharepoint_match_here s = Some m \<Longrightarrow> re_search_sharepoint s = Some m"
  by (cases s) simp_all

lemma re_search_leftmost:
  assumes "sharepoint_match_here suf = Some m"
    and "\<forall>pre' suf'. pre @ suf = pre' @ suf' \<and> length pre' < length pre \<longrightarrow>
           sharepoint_match_here suf' = None"
  shows "re_search_sharepoint (pre @ suf) = Some m"
  using assms
proof (induction pre)
  case Nil
  then show ?case by (simp add: re_search_here)
next
  case (Cons c pre)
  from Cons.prems(2)[rule_format, of "[]" "c # pre @ suf"]
  have none: "sharepoint_match_here (c # pre @ suf) = None" by simp
  have "\<forall>pre' suf'. pre @ suf = pre' @ suf' \<and> length pre' < length pre \<longrightarrow>
           sharepoint_match_here suf' = None"
  proof (intro allI impI)
    fix pre' suf'
    assume "pre @ suf = pre' @ suf' \<and> length pre' < length pre"
    then have "(c # pre) @ suf = (c # pre') @ suf' \<and> length (c # pre') < length (c # pre)"
      by simp
    with Cons.prems(2) show "sharepoint_match_here suf' = None" by blast
  qed
  from Cons.IH[OF Cons.prems(1) this] none show ?case by simp
qed

lemma re_search_None:
  "re_search_sharepoint s = None \<longleftrightarrow> (\<forall>pre suf. s = pre @ suf \<longrightarrow> sharepoint_match_here suf = None)"
proof (induction s)
  case Nil
  then show ?case by simp
next
  case (Cons c cs)
  show ?case
  proof
    assume a: "re_search_sharepoint (c # cs) = None"
    then have h: "sharepoint_match_here (c # cs) = None" and t: "re_search_sharepoint cs = None"
      by (simp_all split: option.splits)
    show "\<forall>pre suf. c # cs = pre @ suf \<longrightarrow> sharepoint_match_here suf = None"
    proof (intro allI impI)
      fix pre suf
      assume e: "c # cs = pre @ suf"
      show "sharepoint_match_here suf = None"
      proof (cases pre)
        case Nil
        with e h show ?thesis by simp
      next
        case (Cons d pre')
        with e have "cs = pre' @ suf" by simp
        with t Cons.IH show ?thesis by blast
      qed
    qed
  next
    assume a: "\<forall>pre suf. c # cs = pre @ suf \<longrightarrow> sharepoint_match_here suf = None"
    then have h: "sharepoint_match_here (c # cs) = None" by (metis append_Nil)
    have "\<forall>pre suf. cs = pre @ suf \<longrightarrow> sharepoint_match_here suf = None"
      using a by (metis append_Cons)
    with Cons.IH have "re_search_sharepoint cs = None" by blast
    with h show "re_search_sharepoint (c # cs) = None" by simp
  qed
qed

lemma path_matches_iff:
  "path_matches path \<longleftrightarrow> (\<exists>pre suf m. path = pre @ suf \<and> sharepoint_match_here suf = Some m)"
proof
  assume "path_matches path"
  then obtain pre user token rest where
    p: "path = pre @ ''/:u:/g/personal/'' @ user @ ''/'' @ token @ rest"
    and u: "user \<noteq> []" "CHR ''/'' \<notin> set user"
    and t: "token \<noteq> []" "\<forall>c\<in>set token. c \<notin> set ''/?#''"
    unfolding path_matches_def by blast
  let ?Q = "\<lambda>c. c \<notin> set ''/?#''"
  let ?tok = "token @ takeWhile ?Q rest"
  have "pattern_here (''/:u:/g/personal/'' @ user @ ''/'' @ token @ rest) user ?tok"
    unfolding pattern_here_def
  proof (intro exI[of _ "dropWhile ?Q rest"] conjI)
    show "''/:u:/g/personal/'' @ user @ ''/'' @ token @ rest =
          ''/:u:/g/personal/'' @ user @ ''/'' @ ?tok @ dropWhile ?Q rest" by simp
    show "user \<noteq> []" "CHR ''/'' \<notin> set user" by (fact u)+
    show "?tok \<noteq> []" using t(1) by simp
    show "\<forall>c\<in>set ?tok. c \<notin> set ''/?#''" using t(2) by (auto dest: set_takeWhileD)
    show "dropWhile ?Q rest = [] \<or> hd (dropWhile ?Q rest) \<in> set ''/?#''"
      using hd_dropWhile[of ?Q rest] by blast
  qed
  from pattern_here_match[OF this] p
  show "\<exists>pre suf m. path = pre @ suf \<and> sharepoint_match_here suf = Some m" by blast
next
  assume "\<exists>pre suf m. path = pre @ suf \<and> sharepoint_match_here suf = Some m"
  then obtain pre suf user token where p: "path = pre @ suf"
    and m: "sharepoint_match_here suf = Some (user, token)" by force
  from match_pattern_here[OF m] p show "path_matches path"
    unfolding pattern_here_def path_matches_def by blast
qed

lemma re_search_None_iff: "re_search_sharepoint path = None \<longleftrightarrow> \<not> path_matches path"
  unfolding re_search_None path_matches_iff by (metis not_None_eq option.distinct(1))

subsection \<open>Facts about the query dictionary\<close>


lemma dict_of_fold_lookup:
  "map_of (foldl (\<lambda>d kv. AList.update (fst kv) (snd kv) d) d pairs) k =
     (case map_of (rev pairs) k of Some v \<Rightarrow> Some v | None \<Rightarrow> map_of d k)"
proof (induction pairs arbitrary: d)
  case Nil
  then show ?case by simp
next
  case (Cons p ps)
  show ?case
    by (simp add: Cons.IH update_conv' map_add_def split: option.splits)
qed

lemma dict_of_lookup: "map_of (dict_of pairs) k = map_of (rev pairs) k"
  by (simp add: dict_of_def dict_of_fold_lookup split: option.splits)

lemma map_of_rev_last:
  "map_of (rev pairs) k =
     (if k \<in> fst ` set pairs then Some (snd (last (filter (\<lambda>kv. fst kv = k) pairs))) else None)"
proof (induction pairs rule: rev_induct)
  case Nil
  then show ?case by simp
next
  case (snoc p ps)
  then show ?case by (cases p) (auto simp: image_iff)
qed

lemma dict_of_keys: "fst ` set (dict_of pairs) = fst ` set pairs"
proof -
  have "dom (map_of (dict_of pairs)) = dom (map_of (rev pairs))"
    by (simp add: dict_of_lookup[abs_def])
  then show ?thesis by (simp add: dom_map_of_conv_image_fst)
qed

subsection \<open>Facts about urls of the plain shape and their queries\<close>

lemma filter_id: "\<forall>x\<in>set xs. P x \<Longrightarrow> filter P xs = xs"
  by (induction xs) auto

lemma split_scheme_http:
  "split_scheme (''http://'' @ rest) = (''http'', ''//'' @ rest)"
  by (simp add: split_scheme_def str_find_def str_lower_def lower_char_def isalpha_ascii_def
      scheme_chars_def Let_def)

lemma split_scheme_https:
  "split_scheme (''https://'' @ rest) = (''https'', ''//'' @ rest)"
  by (simp add: split_scheme_def str_find_def str_lower_def lower_char_def isalpha_ascii_def
      scheme_chars_def Let_def)

lemma urlsplit_rest_plain:
  assumes "\<forall>c\<in>set path. c \<noteq> CHR ''?'' \<and> c \<noteq> CHR ''#''"
    and "\<forall>c\<in>set query. c \<noteq> CHR ''#''"
    and "\<forall>c\<in>set netloc. \<not> digit7 c"
  shows "urlsplit_rest e scheme netloc
           (path @ (if query = [] then [] else ''?'' @ query) @
            (if fragment = [] then [] else ''#'' @ fragment)) =
         Inr (scheme, netloc, path, query, fragment)"
proof -
  let ?q = "if query = [] then [] else ''?'' @ query"
  let ?f = "if fragment = [] then [] else ''#'' @ fragment"
  have nohash: "CHR ''#'' \<notin> set (path @ ?q)" using assms(1,2) by auto
  have s1: "(if CHR ''#'' \<in> set (path @ ?q @ ?f) then str_split1 CHR ''#'' (path @ ?q @ ?f)
             else (path @ ?q @ ?f, [])) = (path @ ?q, fragment)"
  proof (cases "fragment = []")
    case True
    with nohash show ?thesis by simp
  next
    case False
    have "takeWhile (\<lambda>x. x \<noteq> CHR ''#'') ((path @ ?q) @ CHR ''#'' # fragment) = path @ ?q"
      using nohash by (intro takeWhile_run) auto
    moreover have "dropWhile (\<lambda>x. x \<noteq> CHR ''#'') ((path @ ?q) @ CHR ''#'' # fragment) = CHR ''#'' # fragment"
      using nohash by (intro dropWhile_run) auto
    ultimately show ?thesis using False by (simp add: str_split1_def)
  qed
  have s2: "(if CHR ''?'' \<in> set (path @ ?q) then str_split1 CHR ''?'' (path @ ?q)
             else (path @ ?q, [])) = (path, query)"
  proof (cases "query = []")
    case True
    with assms(1) show ?thesis by auto
  next
    case False
    have "takeWhile (\<lambda>x. x \<noteq> CHR ''?'') (path @ CHR ''?'' # query) = path"
      using assms(1) by (intro takeWhile_run) auto
    moreover have "dropWhile (\<lambda>x. x \<noteq> CHR ''?'') (path @ CHR ''?'' # query) = CHR ''?'' # query"
      using assms(1) by (intro dropWhile_run) auto
    ultimately show ?thesis using False by (simp add: str_split1_def)
  qed
  have c: "checknetloc e netloc"
    using assms(3) by (simp add: checknetloc_def isascii_def list_all_iff)
  show ?thesis
    unfolding urlsplit_rest_def s1 using s2 c by (simp del: set_append)
qed

lemma unsafe_url_byte_simps [simp]:
  "\<not> unsafe_url_byte CHR ''h''" "\<not> unsafe_url_byte CHR ''t''" "\<not> unsafe_url_byte CHR ''p''"
  "\<not> unsafe_url_byte CHR ''s''" "\<not> unsafe_url_byte CHR '':''" "\<not> unsafe_url_byte CHR ''/''"
  "\<not> unsafe_url_byte CHR ''?''" "\<not> unsafe_url_byte CHR ''#''"
  by (simp_all add: unsafe_url_byte_def)

lemma plain_url_partsD:
  assumes "plain_url_parts scheme netloc path query fragment"
  shows "scheme = ''http'' \<or> scheme = ''https''"
    and "\<forall>c\<in>set netloc. \<not> digit7 c"
    and "\<forall>c\<in>set netloc. c \<notin> set ''/?#''"
    and "CHR ''['' \<notin> set netloc" and "CHR '']'' \<notin> set netloc"
    and "\<forall>c\<in>set netloc. \<not> unsafe_url_byte c"
    and "path = [] \<or> hd path = CHR ''/''"
    and "\<forall>c\<in>set path. c \<noteq> CHR ''?'' \<and> c \<noteq> CHR ''#''"
    and "CHR '';'' \<notin> set path"
    and "\<forall>c\<in>set path. \<not> unsafe_url_byte c"
    and "\<forall>c\<in>set query. c \<noteq> CHR ''#''"
    and "\<forall>c\<in>set query. \<not> unsafe_url_byte c"
    and "\<forall>c\<in>set fragment. \<not> unsafe_url_byte c"
  using assms unfolding plain_url_parts_def by simp_all fast+

lemma build_url_safe:
  assumes "plain_url_parts scheme netloc path query fragment"
  shows "\<forall>c\<in>set (build_url scheme netloc path query fragment). \<not> unsafe_url_byte c"
proof -
  note d = plain_url_partsD[OF assms]
  from d(1) have s: "\<forall>c\<in>set scheme. \<not> unsafe_url_byte c" by auto
  have q: "\<forall>c\<in>set (if query = [] then [] else ''?'' @ query). \<not> unsafe_url_byte c"
    using d(12) by simp
  have f: "\<forall>c\<in>set (if fragment = [] then [] else ''#'' @ fragment). \<not> unsafe_url_byte c"
    using d(13) by simp
  show ?thesis
    unfolding build_url_def set_append ball_Un using s d(6) d(10) q f by simp
qed

lemma urlparse_build_url:
  assumes "plain_url_parts scheme netloc path query fragment"
  shows "urlparse e (build_url scheme netloc path query fragment) =
         Inr \<lparr>pr_scheme = scheme, pr_netloc = netloc, pr_path = path, pr_params = [],
              pr_query = query, pr_fragment = fragment\<rparr>"
proof -
  let ?q = "if query = [] then [] else ''?'' @ query"
  let ?f = "if fragment = [] then [] else ''#'' @ fragment"
  define tail where "tail = path @ ?q @ ?f"
  define u where "u = build_url scheme netloc path query fragment"
  note d = plain_url_partsD[OF assms]
  have u: "u = scheme @ ''://'' @ netloc @ tail" by (simp add: u_def tail_def build_url_def)
  have strip: "dropWhile c0_control_or_space u = u"
  proof -
    from d(1) obtain r where "u = CHR ''h'' # r" unfolding u by auto
    then show ?thesis by (simp add: c0_control_or_space_def)
  qed
  have filt: "filter (\<lambda>c. \<not> unsafe_url_byte c) u = u"
    unfolding u_def using build_url_safe[OF assms] by (rule filter_id)
  have ss: "split_scheme u = (scheme, ''//'' @ netloc @ tail)"
    unfolding u using d(1) split_scheme_http[of "netloc @ tail"] split_scheme_https[of "netloc @ tail"]
    by auto
  have tl: "tail = [] \<or> \<not> (hd tail \<notin> set ''/?#'')"
    unfolding tail_def using d(7) by (cases path) auto
  have sn: "splitnetloc (''//'' @ netloc @ tail) = (netloc, tail)"
    unfolding splitnetloc_def
    using takeWhile_run[OF d(3) tl] dropWhile_run[OF d(3) tl] by simp
  have rest: "urlsplit_rest e scheme netloc tail = Inr (scheme, netloc, path, query, fragment)"
    unfolding tail_def using d(8) d(11) d(2) by (rule urlsplit_rest_plain)
  have us: "urlsplit e u = Inr (scheme, netloc, path, query, fragment)"
    unfolding urlsplit_def strip filt Let_def ss using sn d(4) d(5) rest by simp
  have "scheme \<in> set uses_params" using d(1) by (auto simp: uses_params_def)
  then show ?thesis unfolding u_def[symmetric] urlparse_def us using d(9) by simp
qed


lemma str_split_notin: "c \<notin> set s \<Longrightarrow> str_split c s = [s]"
  by (induction s) auto

lemma str_split_append: "c \<notin> set p \<Longrightarrow> str_split c (p @ c # rest) = p # str_split c rest"
  by (induction p) auto

lemma str_split_join:
  "\<forall>f\<in>set fs. c \<notin> set f \<Longrightarrow> fs \<noteq> [] \<Longrightarrow> str_split c (str_join [c] fs) = fs"
proof (induction "[c]" fs rule: str_join.induct)
  case 1
  then show ?case by simp
next
  case (2 p)
  then show ?case by (simp add: str_split_notin)
next
  case (3 p q ps)
  then show ?case by (simp add: str_split_append)
qed

lemma unreservedD:
  assumes "unreserved s"
  shows "CHR ''='' \<notin> set s" and "CHR ''&'' \<notin> set s" and "CHR ''%'' \<notin> set s"
    and "CHR ''+'' \<notin> set s" and "CHR '' '' \<notin> set s" and "CHR ''#'' \<notin> set s"
    and "\<forall>c\<in>set s. \<not> unsafe_url_byte c"
proof -
  have a: "CHR ''='' \<notin> set always_safe" "CHR ''&'' \<notin> set always_safe"
    "CHR ''%'' \<notin> set always_safe" "CHR ''+'' \<notin> set always_safe"
    "CHR '' '' \<notin> set always_safe" "CHR ''#'' \<notin> set always_safe"
    "CHR 0x09 \<notin> set always_safe" "CHR 0x0D \<notin> set always_safe" "CHR 0x0A \<notin> set always_safe"
    by (simp_all add: always_safe_def)
  from assms have b: "set s \<subseteq> set always_safe" unfolding unreserved_def by blast
  from a b show "CHR ''='' \<notin> set s" "CHR ''&'' \<notin> set s" "CHR ''%'' \<notin> set s"
    "CHR ''+'' \<notin> set s" "CHR '' '' \<notin> set s" "CHR ''#'' \<notin> set s" by blast+
  show "\<forall>c\<in>set s. \<not> unsafe_url_byte c"
  proof
    fix c assume "c \<in> set s"
    with b have "c \<in> set always_safe" by blast
    with a(7,8,9) show "\<not> unsafe_url_byte c" unfolding unsafe_url_byte_def by auto
  qed
qed

lemma str_replace_notin: "c \<notin> set s \<Longrightarrow> str_replace c t s = s"
  unfolding str_replace_def by (induction s) auto

lemma unquote_plus_unreserved: "unreserved s \<Longrightarrow> unquote_plus s = s"
  by (simp add: unquote_plus_def unquote_def str_replace_notin unreservedD)

lemma quote_plus_unreserved: "unreserved s \<Longrightarrow> quote_plus s [] = s"
  by (simp add: quote_plus_def quote_def quote_from_bytes_def unreservedD list_all_iff
      unreserved_def)




lemma str_join_Nil_iff: "str_join sep fs = [] \<Longrightarrow> \<forall>f\<in>set fs. f = []"
  by (induction sep fs rule: str_join.induct) auto


lemma update_fresh: "k \<notin> fst ` set al \<Longrightarrow> AList.update k v al = al @ [(k, v)]"
  by (induction al) auto

lemma dict_of_fold_distinct:
  "distinct (map fst kvs) \<Longrightarrow> fst ` set d \<inter> fst ` set kvs = {} \<Longrightarrow>
   foldl (\<lambda>d kv. AList.update (fst kv) (snd kv) d) d kvs = d @ kvs"
proof (induction kvs arbitrary: d)
  case Nil
  then show ?case by simp
next
  case (Cons kv kvs)
  from Cons.prems have f: "fst kv \<notin> fst ` set d" by auto
  have u: "AList.update (fst kv) (snd kv) d = d @ [kv]"
    using update_fresh[OF f, of "snd kv"] by simp
  from Cons.prems have "distinct (map fst kvs)"
    and "fst ` set (d @ [kv]) \<inter> fst ` set kvs = {}" by auto
  from Cons.IH[OF this] u show ?case by simp
qed

lemma dict_of_distinct: "distinct (map fst kvs) \<Longrightarrow> dict_of kvs = kvs"
  using dict_of_fold_distinct[of kvs "[]"] by (simp add: dict_of_def)





lemma str_lower_download: "str_lower ''download'' = ''download''"
  by (simp add: str_lower_def lower_char_def)

lemma download_pairs:
  "(if ''download'' \<notin> set (map (\<lambda>kv. str_lower (fst kv)) kvs)
    then AList.update ''download'' ''1'' kvs else kvs) = with_download kvs"
proof (cases "''download'' \<in> set (map (\<lambda>kv. str_lower (fst kv)) kvs)")
  case True
  then show ?thesis by (simp add: with_download_def)
next
  case False
  have "''download'' \<notin> fst ` set kvs"
  proof
    assume "''download'' \<in> fst ` set kvs"
    then obtain kv where "kv \<in> set kvs" "fst kv = ''download''" by auto
    then have "str_lower ''download'' \<in> set (map (\<lambda>kv. str_lower (fst kv)) kvs)" by force
    with False show False by (simp only: str_lower_download)
  qed
  from update_fresh[OF this] False show ?thesis by (simp add: with_download_def)
qed







lemma personal_falls_back:
  assumes "urlparse e url = Inr p"
    and "''redeem'' \<notin> fst ` set (parse_qsl (pr_query p))"
    and "''resid'' \<notin> fst ` set (parse_qsl (pr_query p)) \<or>
         ''authkey'' \<notin> fst ` set (parse_qsl (pr_query p))"
  shows "convert_personal_onedrive_to_direct_link e url = ensure_download_param_fallback e url"
  using assms
  by (auto simp: convert_personal_onedrive_to_direct_link_def Let_def dict_of_lookup
      map_of_rev_last split: option.splits)

lemma str_join_snoc: "fs \<noteq> [] \<Longrightarrow> str_join sep (fs @ [f]) = str_join sep fs @ sep @ f"
  by (induction sep fs rule: str_join.induct) auto

lemma query_text_snoc:
  "kvs \<noteq> [] \<Longrightarrow> query_text (kvs @ [kv]) = query_text kvs @ ''&'' @ field_text kv"
  by (simp add: query_text_def str_join_snoc)

lemma sharepoint_plain_url:
  assumes "plain_url_parts scheme netloc (''/:u:/g/personal/'' @ user @ ''/'' @ token) query fragment"
    and "user \<noteq> []" and "CHR ''/'' \<notin> set user"
    and "token \<noteq> []" and "CHR ''/'' \<notin> set token"
  shows "convert_sharepoint_to_direct_link e
           (build_url scheme netloc (''/:u:/g/personal/'' @ user @ ''/'' @ token) query fragment) =
         Inr (''https://'' @ netloc @ ''/personal/'' @ user @
              ''/_layouts/52/download.aspx?share='' @ token)"
proof -
  let ?path = "''/:u:/g/personal/'' @ user @ ''/'' @ token"
  have t: "\<forall>c\<in>set token. c \<noteq> CHR ''?'' \<and> c \<noteq> CHR ''#''"
    using plain_url_partsD(8)[OF assms(1)] by simp
  have "pattern_here ?path user token"
    unfolding pattern_here_def
    using assms(2-5) t by (intro exI[of _ "[]"]) auto
  then have "sharepoint_match_here ?path = Some (user, token)" by (rule pattern_here_match)
  then have "re_search_sharepoint ?path = Some (user, token)" by (rule re_search_here)
  then show ?thesis
    unfolding convert_sharepoint_to_direct_link_def urlparse_build_url[OF assms(1)]
    by (simp add: Let_def)
qed

lemma evil_host_plain:
  assumes "plain_url_parts ''https'' ''evil-sharepoint.com.attacker.net'' path query fragment"
  shows "parse_onedrive_direct_link e
           (build_url ''https'' ''evil-sharepoint.com.attacker.net'' path query fragment) =
         (Inl (OneDriveLinkError msg_unsupported_host), [])"
proof -
  let ?u = "build_url ''https'' ''evil-sharepoint.com.attacker.net'' path query fragment"
  let ?p = "\<lparr>pr_scheme = ''https'', pr_netloc = ''evil-sharepoint.com.attacker.net'',
             pr_path = path, pr_params = [], pr_query = query, pr_fragment = fragment\<rparr>"
  have "http_prefixed ?u"
    unfolding http_prefixed_def build_url_def
    by (intro exI[of _ "''https''"] exI conjI disjI2 disjI1) (simp_all add: str_lower_def lower_char_def)
  then have m: "re_match_http ?u" by (simp add: re_match_http_iff)
  have h: "hostname ?p = Some ''evil-sharepoint.com.attacker.net''"
    by (simp add: hostname_def hostinfo_name_def str_partition_def str_rpartition_def
        str_lower_def lower_char_def Let_def)
  have "is_onedrive_supported_host e ?u = Inr False"
    unfolding is_onedrive_supported_host_def urlparse_build_url[OF assms]
    by (simp add: h Let_def supported_suffixes_def suffix_to_prefix str_lower_def lower_char_def)
  with m show ?thesis by (simp add: parse_onedrive_direct_link_def)
qed

subsection \<open>Facts about decoding and encoding values\<close>



lemma str_split_nonempty: "str_split c s \<noteq> []"
  by (induction s) (auto split: list.splits)












lemma hexdigit_safe: "hexdigit n \<in> set always_safe"
proof -
  have "n mod 16 < length ''0123456789ABCDEF''" by simp
  then have "hexdigit n \<in> set ''0123456789ABCDEF''"
    unfolding hexdigit_def by (rule nth_mem)
  then show ?thesis by (auto simp: always_safe_def)
qed

lemma quoter_chars: "set (quoter safe b) \<subseteq> set always_safe \<union> set safe \<union> {CHR ''%''}"
  using hexdigit_safe by (auto simp: quoter_def)


lemma quote_chars: "set (quote s safe) \<subseteq> set always_safe \<union> set safe \<union> {CHR ''%''}"
proof -
  have "set (concat (map (quoter safe) s)) \<subseteq> set always_safe \<union> set safe \<union> {CHR ''%''}"
    using quoter_chars[of safe] by auto
  then show ?thesis
    by (auto simp: quote_def quote_from_bytes_def list_all_iff)
qed


lemma set_str_replace: "set (str_replace c t s) \<subseteq> (set s - {c}) \<union> set t"
  by (induction s) (auto simp: str_replace_def)

lemma quote_plus_chars: "set (quote_plus s []) \<subseteq> set always_safe \<union> {CHR ''%'', CHR ''+''}"
proof (cases "CHR '' '' \<in> set s")
  case False
  then show ?thesis using quote_chars[of s "[]"] by (auto simp: quote_plus_def)
next
  case True
  have "set (str_replace CHR '' '' ''+'' (quote s '' '')) \<subseteq> (set (quote s '' '') - {CHR '' ''}) \<union> set ''+''"
    by (rule set_str_replace)
  with quote_chars[of s "'' ''"] True show ?thesis by (auto simp: quote_plus_def)
qed


lemma quote_plus_no_delims:
  "CHR ''&'' \<notin> set (quote_plus s [])" "CHR ''='' \<notin> set (quote_plus s [])"
proof -
  have "CHR ''&'' \<notin> set always_safe \<union> {CHR ''%'', CHR ''+''}"
    "CHR ''='' \<notin> set always_safe \<union> {CHR ''%'', CHR ''+''}"
    by (simp_all add: always_safe_def)
  with quote_plus_chars[of s] show "CHR ''&'' \<notin> set (quote_plus s [])"
    "CHR ''='' \<notin> set (quote_plus s [])" by blast+
qed





subsection \<open>Facts about queries written the way urlencode writes them\<close>

lemma urlencodedD:
  assumes "urlencoded s"
  shows "CHR ''&'' \<notin> set s" and "CHR ''='' \<notin> set s"
  using quote_plus_no_delims[of "unquote_plus s"] assms unfolding urlencoded_def by simp_all

lemma unreserved_urlencoded: "unreserved s \<Longrightarrow> urlencoded s"
  by (simp add: urlencoded_def unquote_plus_unreserved quote_plus_unreserved)

lemma urlencoded_inj:
  "urlencoded s \<Longrightarrow> urlencoded t \<Longrightarrow> unquote_plus s = unquote_plus t \<Longrightarrow> s = t"
  unfolding urlencoded_def by metis

lemma urlencoded_decode_unreserved:
  assumes "urlencoded s" and "unreserved (unquote_plus s)"
  shows "unquote_plus s = s"
  using assms quote_plus_unreserved[of "unquote_plus s"] unfolding urlencoded_def by simp

lemma lower_char_safe: "lower_char c \<in> set always_safe \<Longrightarrow> c \<in> set always_safe"
proof (cases "c \<in> set ''ABCDEFGHIJKLMNOPQRSTUVWXYZ''")
  case True
  then show ?thesis by (auto simp: always_safe_def)
next
  case False
  assume "lower_char c \<in> set always_safe"
  with False show ?thesis by (simp add: lower_char_def)
qed

lemma str_lower_unreserved: "unreserved (str_lower s) \<Longrightarrow> unreserved s"
  by (simp add: unreserved_def str_lower_def lower_char_safe)

lemma lower_decoded_name:
  assumes "urlencoded k" and "unreserved t"
  shows "str_lower (unquote_plus k) = t \<longleftrightarrow> str_lower k = t"
proof
  assume a: "str_lower (unquote_plus k) = t"
  with assms(2) have "unreserved (unquote_plus k)" by (simp add: str_lower_unreserved)
  with assms(1) have "unquote_plus k = k" by (rule urlencoded_decode_unreserved)
  with a show "str_lower k = t" by simp
next
  assume a: "str_lower k = t"
  with assms(2) have "unreserved k" by (simp add: str_lower_unreserved)
  then have "unquote_plus k = k" by (rule unquote_plus_unreserved)
  with a show "str_lower (unquote_plus k) = t" by simp
qed

lemma decoded_name:
  assumes "urlencoded k" and "unreserved t"
  shows "unquote_plus k = t \<longleftrightarrow> k = t"
proof
  assume a: "unquote_plus k = t"
  with assms(2) have "unreserved (unquote_plus k)" by simp
  with assms(1) have "unquote_plus k = k" by (rule urlencoded_decode_unreserved)
  with a show "k = t" by simp
next
  assume "k = t"
  with assms(2) show "unquote_plus k = t" by (simp add: unquote_plus_unreserved)
qed

lemma lower_decoded_name_iff:
  assumes "kv \<in> set kvs" and "\<forall>kv\<in>set kvs. urlencoded (fst kv)" and "unreserved t"
  shows "(t = str_lower (unquote_plus (fst kv))) = (t = str_lower (fst kv))"
proof -
  from assms(2,1) have "urlencoded (fst kv)" by (rule bspec)
  from lower_decoded_name[OF this assms(3)] show ?thesis unfolding eq_commute[of t] .
qed

lemma decoded_name_iff:
  assumes "kv \<in> set kvs" and "\<forall>kv\<in>set kvs. urlencoded (fst kv)" and "unreserved t"
  shows "(t = unquote_plus (fst kv)) = (t = fst kv)"
proof -
  from assms(2,1) have "urlencoded (fst kv)" by (rule bspec)
  from decoded_name[OF this assms(3)] show ?thesis unfolding eq_commute[of t] .
qed

lemma parse_field_encoded:
  assumes "urlencoded k" and "v \<noteq> []"
  shows "parse_field (field_text (k, v)) = [(unquote_plus k, unquote_plus v)]"
proof -
  have n: "CHR ''='' \<notin> set k" using assms(1) by (rule urlencodedD)
  have "takeWhile (\<lambda>x. x \<noteq> CHR ''='') (k @ CHR ''='' # v) = k"
    using n by (intro takeWhile_run) auto
  moreover have "dropWhile (\<lambda>x. x \<noteq> CHR ''='') (k @ CHR ''='' # v) = CHR ''='' # v"
    using n by (intro dropWhile_run) auto
  ultimately have "str_partition CHR ''='' (k @ CHR ''='' # v) = (k, True, v)"
    by (simp add: str_partition_def)
  then show ?thesis
    by (simp add: parse_field_def field_text_def assms)
qed

lemma parse_fields_encoded:
  "\<forall>kv\<in>set kvs. urlencoded (fst kv) \<and> snd kv \<noteq> [] \<Longrightarrow>
   concat (map (parse_field \<circ> field_text) kvs) =
   map (\<lambda>kv. (unquote_plus (fst kv), unquote_plus (snd kv))) kvs"
proof (induction kvs)
  case Nil
  then show ?case by simp
next
  case (Cons kv kvs)
  obtain k v where kv: "kv = (k, v)" by (cases kv)
  with Cons.prems have "parse_field (field_text kv) = [(unquote_plus k, unquote_plus v)]"
    by (simp add: parse_field_encoded)
  with Cons kv show ?case by simp
qed

lemma query_text_nonempty: "kvs \<noteq> [] \<Longrightarrow> query_text kvs \<noteq> []"
proof
  assume "kvs \<noteq> []" and "query_text kvs = []"
  then have "\<forall>f\<in>set (map field_text kvs). f = []"
    unfolding query_text_def by (intro str_join_Nil_iff)
  with \<open>kvs \<noteq> []\<close> show False by (cases kvs) (auto simp: field_text_def)
qed

lemma parse_qsl_encoded:
  assumes "\<forall>kv\<in>set kvs. urlencoded (fst kv) \<and> urlencoded (snd kv) \<and> snd kv \<noteq> []"
  shows "parse_qsl (query_text kvs) =
         map (\<lambda>kv. (unquote_plus (fst kv), unquote_plus (snd kv))) kvs"
proof (cases "kvs = []")
  case True
  then show ?thesis by (simp add: parse_qsl_def query_text_def)
next
  case False
  then have ne: "query_text kvs \<noteq> []" by (rule query_text_nonempty)
  have "\<forall>f\<in>set (map field_text kvs). CHR ''&'' \<notin> set f"
    using assms by (auto simp: field_text_def urlencodedD)
  then have "str_split CHR ''&'' (query_text kvs) = map field_text kvs"
    unfolding query_text_def using False by (intro str_split_join) auto
  moreover have "\<forall>kv\<in>set kvs. urlencoded (fst kv) \<and> snd kv \<noteq> []" using assms by blast
  ultimately show ?thesis using ne by (simp add: parse_qsl_def parse_fields_encoded)
qed

lemma urlencode_decoded:
  assumes "\<forall>kv\<in>set kvs. urlencoded (fst kv) \<and> urlencoded (snd kv)"
  shows "urlencode (map (\<lambda>kv. (unquote_plus (fst kv), unquote_plus (snd kv))) kvs) =
         query_text kvs"
proof -
  have "map (\<lambda>kv. quote_plus (fst kv) [] @ ''='' @ quote_plus (snd kv) [])
          (map (\<lambda>kv. (unquote_plus (fst kv), unquote_plus (snd kv))) kvs) = map field_text kvs"
    using assms by (simp add: urlencoded_def field_text_def)
  then show ?thesis unfolding urlencode_def query_text_def by (rule arg_cong)
qed

lemma urlunparse_parts:
  "urlunparse (scheme, netloc, path, params, query, fragment) =
   urlunparse (scheme, netloc, path, params, [], []) @
   (if query = [] then [] else ''?'' @ query) @
   (if fragment = [] then [] else ''#'' @ fragment)"
  by (simp add: urlunparse_def urlunsplit_def Let_def)

lemma distinct_decoded:
  assumes "\<forall>kv\<in>set kvs. urlencoded (fst kv)" and "distinct (map fst kvs)"
  shows "distinct (map fst (map (\<lambda>kv. (unquote_plus (fst kv), unquote_plus (snd kv))) kvs))"
proof -
  have "inj_on unquote_plus (set (map fst kvs))"
    using assms(1) by (auto intro!: inj_onI urlencoded_inj)
  with assms(2) have "distinct (map unquote_plus (map fst kvs))"
    unfolding distinct_map[of unquote_plus] by simp
  then show ?thesis by (simp add: comp_def)
qed

lemma fallback_encoded:
  assumes "urlparse e url = Inr p"
    and "pr_query p = query_text kvs"
    and "\<forall>kv\<in>set kvs. urlencoded (fst kv) \<and> urlencoded (snd kv) \<and> snd kv \<noteq> []"
    and "distinct (map fst kvs)"
  shows "ensure_download_param_fallback e url =
         Inr (urlunparse (pr_scheme p, pr_netloc p, pr_path p, pr_params p,
                query_text (if ''download'' \<in> set (map (\<lambda>kv. str_lower (fst kv)) kvs) then kvs
                            else kvs @ [(''download'', ''1'')]),
                pr_fragment p))"
proof -
  let ?dec = "\<lambda>kv. (unquote_plus (fst kv), unquote_plus (snd kv))"
  have enc: "\<forall>kv\<in>set kvs. urlencoded (fst kv) \<and> urlencoded (snd kv)" using assms(3) by blast
  have names: "\<forall>kv\<in>set kvs. urlencoded (fst kv)" using assms(3) by blast
  have un: "unreserved ''download''" "unreserved ''1''"
    by (simp_all add: unreserved_def always_safe_def)
  have d: "dict_of (parse_qsl (pr_query p)) = map ?dec kvs"
    unfolding assms(2) parse_qsl_encoded[OF assms(3)]
    using distinct_decoded[OF names assms(4)] by (rule dict_of_distinct)
  have "(\<exists>kv\<in>set kvs. ''download'' = str_lower (unquote_plus (fst kv))) =
        (\<exists>kv\<in>set kvs. ''download'' = str_lower (fst kv))"
    by (rule bex_cong[OF refl]) (rule lower_decoded_name_iff[OF _ names un(1)])
  then have low: "(''download'' \<in> set (map (\<lambda>kv. str_lower (fst kv)) (map ?dec kvs))) =
             (''download'' \<in> set (map (\<lambda>kv. str_lower (fst kv)) kvs))"
    by (simp add: image_iff)
  have wd: "with_download (map ?dec kvs) =
            map ?dec (if ''download'' \<in> set (map (\<lambda>kv. str_lower (fst kv)) kvs) then kvs
                      else kvs @ [(''download'', ''1'')])"
    unfolding with_download_def low using un by (simp add: unquote_plus_unreserved)
  have all: "\<forall>kv\<in>set (if ''download'' \<in> set (map (\<lambda>kv. str_lower (fst kv)) kvs) then kvs
                         else kvs @ [(''download'', ''1'')]).
               urlencoded (fst kv) \<and> urlencoded (snd kv)"
    using enc un by (auto simp: unreserved_urlencoded)
  show ?thesis
    unfolding ensure_download_param_fallback_def assms(1)
    by (simp only: sum.case Let_def d download_pairs wd urlencode_decoded[OF all])
qed

section \<open>The claims\<close>

subsection \<open>C1: the enterprise rewrite\<close>

text \<open>
  Claim C1 speaks of the path and of the host of the url. The rule takes both from
  \<^verbatim>\<open>urlparse\<close>: \<^verbatim>\<open>parsed.path\<close> is the path without the parameters of its last segment
  (the text after a \<^verbatim>\<open>;\<close>), and \<^verbatim>\<open>parsed.netloc\<close> is the host as it was written,
  together with the user information before it and the port after it. In the first url
  below the path is \<^verbatim>\<open>/:u:/g/personal/alice/TOK;v=1\<close>, its token, the maximal run without
  \<^verbatim>\<open>/ ? #\<close>, is \<^verbatim>\<open>TOK;v=1\<close>, and the rule returns \<^verbatim>\<open>share=TOK\<close>. The host of the
  second url is \<^verbatim>\<open>contoso.sharepoint.com\<close>, and the rule returns a url on
  \<^verbatim>\<open>user@Contoso.SharePoint.com:443\<close>.
\<close>

theorem sharepoint_rewrite_counterexample:
  "build_url ''https'' ''c.sharepoint.com'' ''/:u:/g/personal/alice/TOK;v=1'' [] [] =
     ''https://c.sharepoint.com/:u:/g/personal/alice/TOK;v=1'' \<and>
   urlsplit example_env ''https://c.sharepoint.com/:u:/g/personal/alice/TOK;v=1'' =
     Inr (''https'', ''c.sharepoint.com'', ''/:u:/g/personal/alice/TOK;v=1'', [], []) \<and>
   pattern_here ''/:u:/g/personal/alice/TOK;v=1'' ''alice'' ''TOK;v=1'' \<and>
   convert_sharepoint_to_direct_link example_env
       ''https://c.sharepoint.com/:u:/g/personal/alice/TOK;v=1'' =
     Inr ''https://c.sharepoint.com/personal/alice/_layouts/52/download.aspx?share=TOK'' \<and>
   convert_sharepoint_to_direct_link example_env
       ''https://c.sharepoint.com/:u:/g/personal/alice/TOK;v=1'' \<noteq>
     Inr ''https://c.sharepoint.com/personal/alice/_layouts/52/download.aspx?share=TOK;v=1'' \<and>
   (case urlparse example_env
           ''https://user@Contoso.SharePoint.com:443/:u:/g/personal/alice/TOK'' of
      Inl err \<Rightarrow> None
    | Inr p \<Rightarrow> hostname p) = Some ''contoso.sharepoint.com'' \<and>
   convert_sharepoint_to_direct_link example_env
       ''https://user@Contoso.SharePoint.com:443/:u:/g/personal/alice/TOK'' =
     Inr ''https://user@Contoso.SharePoint.com:443/personal/alice/_layouts/52/download.aspx?share=TOK'' \<and>
   convert_sharepoint_to_direct_link example_env
       ''https://user@Contoso.SharePoint.com:443/:u:/g/personal/alice/TOK'' \<noteq>
     Inr ''https://contoso.sharepoint.com/personal/alice/_layouts/52/download.aspx?share=TOK'' \<and>
   convert_sharepoint_to_direct_link example_env
       ''https://user@Contoso.SharePoint.com:443/:u:/g/personal/alice/TOK'' \<noteq>
     Inr ''https://Contoso.SharePoint.com/personal/alice/_layouts/52/download.aspx?share=TOK''"
proof -
  let ?u = "''https://c.sharepoint.com/:u:/g/personal/alice/TOK;v=1''"
  let ?v = "''https://user@Contoso.SharePoint.com:443/:u:/g/personal/alice/TOK''"
  have a: "build_url ''https'' ''c.sharepoint.com'' ''/:u:/g/personal/alice/TOK;v=1'' [] [] = ?u"
    by (simp add: build_url_def)
  have b: "urlsplit example_env ?u =
     Inr (''https'', ''c.sharepoint.com'', ''/:u:/g/personal/alice/TOK;v=1'', [], [])"
    by code_simp
  have c: "pattern_here ''/:u:/g/personal/alice/TOK;v=1'' ''alice'' ''TOK;v=1''"
    by (rule match_pattern_here) (simp add: sharepoint_match_here_def)
  have d: "convert_sharepoint_to_direct_link example_env ?u =
     Inr ''https://c.sharepoint.com/personal/alice/_layouts/52/download.aspx?share=TOK''"
    by code_simp
  have h: "(case urlparse example_env ?v of Inl err \<Rightarrow> None | Inr p \<Rightarrow> hostname p) =
     Some ''contoso.sharepoint.com''"
    by code_simp
  have f: "convert_sharepoint_to_direct_link example_env ?v =
     Inr ''https://user@Contoso.SharePoint.com:443/personal/alice/_layouts/52/download.aspx?share=TOK''"
    by code_simp
  show ?thesis unfolding d f using a b c h by simp
qed

text \<open>
  Claim C1, amended: the path and the network location are those that \<^verbatim>\<open>urlparse\<close>
  returns for the url. Let that path (\<^verbatim>\<open>parsed.path\<close>) hold the pattern
  \<^verbatim>\<open>/:u:/g/personal/<user>/<token>\<close> (user a maximal run without \<^verbatim>\<open>/\<close>, token a
  maximal run without \<^verbatim>\<open>/ ? #\<close>), at the leftmost place where the pattern occurs.
  Then the enterprise rule returns
  \<^verbatim>\<open>https://<netloc>/personal/<user>/_layouts/52/download.aspx?share=<token>\<close>, the
  netloc being \<^verbatim>\<open>parsed.netloc\<close>. The url of the specification gives exactly the url
  the specification names. Written out for urls of the plain shape: \<^verbatim>\<open>http\<close> or
  \<^verbatim>\<open>https\<close>, any network location, the path \<^verbatim>\<open>/:u:/g/personal/<user>/<token>\<close>
  without \<^verbatim>\<open>;\<close>, any query and fragment give the \<^verbatim>\<open>https\<close> url on the same network
  location, without the query and the fragment.
\<close>

theorem sharepoint_rewrite:
  "(\<forall>e url p pre suf user token.
      urlparse e url = Inr p \<and> pr_path p = pre @ suf \<and> pattern_here suf user token \<and>
      (\<forall>pre' suf'. pr_path p = pre' @ suf' \<and> length pre' < length pre \<longrightarrow>
         \<not> (\<exists>u t. pattern_here suf' u t)) \<longrightarrow>
      convert_sharepoint_to_direct_link e url =
        Inr (''https://'' @ pr_netloc p @ ''/personal/'' @ user @
             ''/_layouts/52/download.aspx?share='' @ token)) \<and>
   (\<forall>e. convert_sharepoint_to_direct_link e
          ''https://contoso-my.sharepoint.cn/:u:/g/personal/alice_contoso_cn/XY16c5xGfSxDn91zeEE3A2UBVpoPOzfNzUEDW6dQ'' =
        Inr ''https://contoso-my.sharepoint.cn/personal/alice_contoso_cn/_layouts/52/download.aspx?share=XY16c5xGfSxDn91zeEE3A2UBVpoPOzfNzUEDW6dQ'') \<and>
   (\<forall>e scheme netloc user token query fragment.
      plain_url_parts scheme netloc (''/:u:/g/personal/'' @ user @ ''/'' @ token) query fragment \<and>
      user \<noteq> [] \<and> CHR ''/'' \<notin> set user \<and> token \<noteq> [] \<and> CHR ''/'' \<notin> set token \<longrightarrow>
      convert_sharepoint_to_direct_link e
        (build_url scheme netloc (''/:u:/g/personal/'' @ user @ ''/'' @ token) query fragment) =
      Inr (''https://'' @ netloc @ ''/personal/'' @ user @
           ''/_layouts/52/download.aspx?share='' @ token))"
proof (intro conjI allI impI)
  fix e url p pre suf user token
  assume a: "urlparse e url = Inr p \<and> pr_path p = pre @ suf \<and> pattern_here suf user token \<and>
      (\<forall>pre' suf'. pr_path p = pre' @ suf' \<and> length pre' < length pre \<longrightarrow>
         \<not> (\<exists>u t. pattern_here suf' u t))"
  then have m: "sharepoint_match_here suf = Some (user, token)"
    by (simp add: pattern_here_match)
  have "\<forall>pre' suf'. pre @ suf = pre' @ suf' \<and> length pre' < length pre \<longrightarrow>
           sharepoint_match_here suf' = None"
  proof (intro allI impI)
    fix pre' suf'
    assume b: "pre @ suf = pre' @ suf' \<and> length pre' < length pre"
    with a have "\<not> (\<exists>u t. pattern_here suf' u t)" by metis
    then show "sharepoint_match_here suf' = None"
      using match_pattern_here[of suf'] by (cases "sharepoint_match_here suf'") auto
  qed
  from re_search_leftmost[OF m this] a
  show "convert_sharepoint_to_direct_link e url =
        Inr (''https://'' @ pr_netloc p @ ''/personal/'' @ user @
             ''/_layouts/52/download.aspx?share='' @ token)"
    by (simp add: convert_sharepoint_to_direct_link_def Let_def)
next
  fix e
  have "urlparse e ''https://contoso-my.sharepoint.cn/:u:/g/personal/alice_contoso_cn/XY16c5xGfSxDn91zeEE3A2UBVpoPOzfNzUEDW6dQ''
    = Inr \<lparr>pr_scheme = ''https'', pr_netloc = ''contoso-my.sharepoint.cn'',
            pr_path = ''/:u:/g/personal/alice_contoso_cn/XY16c5xGfSxDn91zeEE3A2UBVpoPOzfNzUEDW6dQ'',
            pr_params = [], pr_query = [], pr_fragment = []\<rparr>"
    by (simp add: url_defs Let_def)
  then show "convert_sharepoint_to_direct_link e
          ''https://contoso-my.sharepoint.cn/:u:/g/personal/alice_contoso_cn/XY16c5xGfSxDn91zeEE3A2UBVpoPOzfNzUEDW6dQ'' =
        Inr ''https://contoso-my.sharepoint.cn/personal/alice_contoso_cn/_layouts/52/download.aspx?share=XY16c5xGfSxDn91zeEE3A2UBVpoPOzfNzUEDW6dQ''"
    by (simp add: convert_sharepoint_to_direct_link_def sharepoint_match_here_def Let_def)
next
  fix e scheme netloc user token query fragment
  assume "plain_url_parts scheme netloc (''/:u:/g/personal/'' @ user @ ''/'' @ token) query fragment \<and>
      user \<noteq> [] \<and> CHR ''/'' \<notin> set user \<and> token \<noteq> [] \<and> CHR ''/'' \<notin> set token"
  then show "convert_sharepoint_to_direct_link e
        (build_url scheme netloc (''/:u:/g/personal/'' @ user @ ''/'' @ token) query fragment) =
      Inr (''https://'' @ netloc @ ''/personal/'' @ user @
           ''/_layouts/52/download.aspx?share='' @ token)"
    using sharepoint_plain_url by blast
qed

theorem sharepoint_rewrite_witness:
  "urlparse example_env ''http://u:pw@Contoso.SharePoint.com:8443/sites/:u:/g/personal/alice/TOKEN/more;v=1?web=1#top'' =
     Inr \<lparr>pr_scheme = ''http'', pr_netloc = ''u:pw@Contoso.SharePoint.com:8443'',
           pr_path = ''/sites/:u:/g/personal/alice/TOKEN/more'', pr_params = ''v=1'',
           pr_query = ''web=1'', pr_fragment = ''top''\<rparr> \<and>
   pattern_here ''/:u:/g/personal/alice/TOKEN/more'' ''alice'' ''TOKEN'' \<and>
   convert_sharepoint_to_direct_link example_env
       ''http://u:pw@Contoso.SharePoint.com:8443/sites/:u:/g/personal/alice/TOKEN/more;v=1?web=1#top'' =
     Inr ''https://u:pw@Contoso.SharePoint.com:8443/personal/alice/_layouts/52/download.aspx?share=TOKEN''"
proof -
  let ?u = "''http://u:pw@Contoso.SharePoint.com:8443/sites/:u:/g/personal/alice/TOKEN/more;v=1?web=1#top''"
  let ?p = "\<lparr>pr_scheme = ''http'', pr_netloc = ''u:pw@Contoso.SharePoint.com:8443'',
           pr_path = ''/sites/:u:/g/personal/alice/TOKEN/more'', pr_params = ''v=1'',
           pr_query = ''web=1'', pr_fragment = ''top''\<rparr>"
  have a: "urlparse example_env ?u = Inr ?p"
    by (simp add: url_defs splitparams_def str_rfind_def Let_def)
  have b: "pattern_here ''/:u:/g/personal/alice/TOKEN/more'' ''alice'' ''TOKEN''"
    by (rule match_pattern_here) (simp add: sharepoint_match_here_def)
  have c: "pr_path ?p = ''/sites'' @ ''/:u:/g/personal/alice/TOKEN/more''" by simp
  have d: "\<forall>pre' suf'. pr_path ?p = pre' @ suf' \<and> length pre' < length ''/sites'' \<longrightarrow>
         \<not> (\<exists>u t. pattern_here suf' u t)"
  proof (intro allI impI notI)
    fix pre' suf'
    assume h: "pr_path ?p = pre' @ suf' \<and> length pre' < length ''/sites''"
      and "\<exists>u t. pattern_here suf' u t"
    then obtain u t where "sharepoint_match_here suf' = Some (u, t)"
      using pattern_here_match by blast
    then have pf: "prefix ''/:u:/g/personal/'' suf'"
      by (simp add: sharepoint_match_here_def split: if_splits)
    from h have "suf' = drop (length pre') ''/sites/:u:/g/personal/alice/TOKEN/more''"
      by (metis append_eq_conv_conj parse_result.select_convs(3))
    moreover from h have "length pre' < 6" by simp
    then have "length pre' = 0 \<or> length pre' = 1 \<or> length pre' = 2 \<or> length pre' = 3 \<or>
        length pre' = 4 \<or> length pre' = 5" by arith
    ultimately show False using pf by auto
  qed
  from sharepoint_rewrite[THEN conjunct1, rule_format, of example_env ?u ?p "''/sites''"
      "''/:u:/g/personal/alice/TOKEN/more''" "''alice''" "''TOKEN''"] a b c d
  have "convert_sharepoint_to_direct_link example_env ?u =
     Inr (''https://'' @ pr_netloc ?p @ ''/personal/'' @ ''alice'' @
             ''/_layouts/52/download.aspx?share='' @ ''TOKEN'')"
    by blast
  with a b show ?thesis by simp
qed

subsection \<open>C2: the host decides between the two dialects\<close>





subsection \<open>C3: the fallback adds download=1\<close>

text \<open>
  Claim C3 says that the fallback returns the input url with \<^verbatim>\<open>download=1\<close> appended
  and everything else as it was: every parameter preserved verbatim, multi-valued ones
  included, and scheme, host, path and fragment unchanged. The fallback parses the url
  and the query and writes both again (\<^verbatim>\<open>urlparse\<close>, \<^verbatim>\<open>dict(parse_qsl(...))\<close>, then
  \<^verbatim>\<open>urlencode\<close> and \<^verbatim>\<open>urlunparse\<close>): a \<^verbatim>\<open>/\<close> in a value comes back as \<^verbatim>\<open>%2F\<close>, of a
  repeated name only the last value is kept, a scheme in upper case comes back in
  lower case, and a parameter with an empty value is left out.
\<close>

theorem download_fallback_counterexample:
  "convert_personal_onedrive_to_direct_link example_env
       ''https://onedrive.live.com/view.aspx?name=a/b#frag'' =
     Inr ''https://onedrive.live.com/view.aspx?name=a%2Fb&download=1#frag'' \<and>
   convert_personal_onedrive_to_direct_link example_env
       ''https://onedrive.live.com/view.aspx?name=a/b#frag'' \<noteq>
     Inr ''https://onedrive.live.com/view.aspx?name=a/b&download=1#frag'' \<and>
   convert_personal_onedrive_to_direct_link example_env
       ''https://onedrive.live.com/view.aspx?id=1&id=2'' =
     Inr ''https://onedrive.live.com/view.aspx?id=2&download=1'' \<and>
   convert_personal_onedrive_to_direct_link example_env
       ''https://onedrive.live.com/view.aspx?id=1&id=2'' \<noteq>
     Inr ''https://onedrive.live.com/view.aspx?id=1&id=2&download=1'' \<and>
   convert_personal_onedrive_to_direct_link example_env
       ''HTTPS://onedrive.live.com/view.aspx?id=1'' =
     Inr ''https://onedrive.live.com/view.aspx?id=1&download=1'' \<and>
   convert_personal_onedrive_to_direct_link example_env
       ''HTTPS://onedrive.live.com/view.aspx?id=1'' \<noteq>
     Inr ''HTTPS://onedrive.live.com/view.aspx?id=1&download=1'' \<and>
   convert_personal_onedrive_to_direct_link example_env
       ''https://onedrive.live.com/view.aspx?id=1&v='' =
     Inr ''https://onedrive.live.com/view.aspx?id=1&download=1'' \<and>
   convert_personal_onedrive_to_direct_link example_env
       ''https://onedrive.live.com/view.aspx?id=1&v='' \<noteq>
     Inr ''https://onedrive.live.com/view.aspx?id=1&v=&download=1''"
  by code_simp

text \<open>
  Claim C3, amended. Take a url that \<^verbatim>\<open>urlparse\<close> accepts and \<^verbatim>\<open>urlunparse\<close> writes
  back as it was, with a network location, whose query is \<^verbatim>\<open>k1=v1&...&kn=vn\<close> with
  names and values written the way \<^verbatim>\<open>urlencode\<close> writes them, the values not empty and
  the names pairwise different, with no \<^verbatim>\<open>redeem\<close> and not both \<^verbatim>\<open>resid\<close> and
  \<^verbatim>\<open>authkey\<close>. On it the personal rule is the fallback. When no name is \<^verbatim>\<open>download\<close> in
  some case of its letters, the result is the url with \<^verbatim>\<open>download=1\<close> as the new last
  parameter: the text before the query, then \<^verbatim>\<open>?\<close>, the query followed by \<^verbatim>\<open>&\<close> when
  there is one, \<^verbatim>\<open>download=1\<close>, and the fragment as it was. When a name is
  \<^verbatim>\<open>download\<close>, the result is the url itself. Nothing is said of a query with a
  repeated name.
\<close>

theorem download_fallback_encoded:
  assumes "urlparse e url = Inr p"
    and "urlunparse (pr_scheme p, pr_netloc p, pr_path p, pr_params p, pr_query p,
                     pr_fragment p) = url"
    and "pr_netloc p \<noteq> []"
    and "pr_query p = query_text kvs"
    and "\<forall>kv\<in>set kvs. urlencoded (fst kv) \<and> urlencoded (snd kv) \<and> snd kv \<noteq> []"
    and "distinct (map fst kvs)"
    and "''redeem'' \<notin> fst ` set kvs"
    and "''resid'' \<notin> fst ` set kvs \<or> ''authkey'' \<notin> fst ` set kvs"
  shows "convert_personal_onedrive_to_direct_link e url = ensure_download_param_fallback e url \<and>
         (\<exists>base.
            url = base @ (if kvs = [] then [] else ''?'' @ query_text kvs) @
                  (if pr_fragment p = [] then [] else ''#'' @ pr_fragment p) \<and>
            ensure_download_param_fallback e url =
              Inr (if ''download'' \<in> set (map (\<lambda>kv. str_lower (fst kv)) kvs) then url
                   else base @ ''?'' @ (if kvs = [] then [] else query_text kvs @ ''&'') @
                        ''download=1'' @
                        (if pr_fragment p = [] then [] else ''#'' @ pr_fragment p)))"
proof
  let ?dec = "\<lambda>kv. (unquote_plus (fst kv), unquote_plus (snd kv))"
  let ?base = "urlunparse (pr_scheme p, pr_netloc p, pr_path p, pr_params p, [], [])"
  let ?frag = "if pr_fragment p = [] then [] else ''#'' @ pr_fragment p"
  have names: "\<forall>kv\<in>set kvs. urlencoded (fst kv)" using assms(5) by blast
  have un: "unreserved ''redeem''" "unreserved ''resid''" "unreserved ''authkey''"
    by (simp_all add: unreserved_def always_safe_def)
  have keys: "fst ` set (parse_qsl (pr_query p)) = unquote_plus ` fst ` set kvs"
    unfolding assms(4) parse_qsl_encoded[OF assms(5)] by (simp add: image_image)
  have key: "t \<in> fst ` set (parse_qsl (pr_query p)) \<longleftrightarrow> t \<in> fst ` set kvs" if "unreserved t" for t
  proof -
    have "(\<exists>kv\<in>set kvs. t = unquote_plus (fst kv)) = (\<exists>kv\<in>set kvs. t = fst kv)"
      by (rule bex_cong[OF refl]) (rule decoded_name_iff[OF _ names that])
    then show ?thesis unfolding keys by (simp add: image_iff)
  qed
  show "convert_personal_onedrive_to_direct_link e url = ensure_download_param_fallback e url"
    using assms(1) assms(7,8) by (intro personal_falls_back[where p = p]) (simp_all add: key un)
  have q: "kvs = [] \<longleftrightarrow> query_text kvs = []"
    using query_text_nonempty[of kvs] by (auto simp: query_text_def)
  have u: "url = ?base @ (if kvs = [] then [] else ''?'' @ query_text kvs) @ ?frag"
    using assms(2) unfolding assms(4)
    by (subst (asm) urlunparse_parts) (simp add: q)
  have snoc: "query_text (kvs @ [(''download'', ''1'')]) =
              (if kvs = [] then [] else query_text kvs @ ''&'') @ ''download=1''"
    by (simp add: query_text_snoc field_text_def) (simp add: query_text_def field_text_def)
  have fb: "ensure_download_param_fallback e url =
              Inr (if ''download'' \<in> set (map (\<lambda>kv. str_lower (fst kv)) kvs) then url
                   else ?base @ ''?'' @ (if kvs = [] then [] else query_text kvs @ ''&'') @
                        ''download=1'' @ ?frag)"
  proof (cases "''download'' \<in> set (map (\<lambda>kv. str_lower (fst kv)) kvs)")
    case True
    with fallback_encoded[OF assms(1,4,5,6)] assms(2,4) show ?thesis by simp
  next
    case False
    have "urlunparse (pr_scheme p, pr_netloc p, pr_path p, pr_params p,
             query_text (kvs @ [(''download'', ''1'')]), pr_fragment p) =
          ?base @ ''?'' @ (if kvs = [] then [] else query_text kvs @ ''&'') @ ''download=1'' @ ?frag"
      by (subst urlunparse_parts) (simp add: snoc)
    with fallback_encoded[OF assms(1,4,5,6)] False show ?thesis by simp
  qed
  from u fb show "\<exists>base.
            url = base @ (if kvs = [] then [] else ''?'' @ query_text kvs) @
                  (if pr_fragment p = [] then [] else ''#'' @ pr_fragment p) \<and>
            ensure_download_param_fallback e url =
              Inr (if ''download'' \<in> set (map (\<lambda>kv. str_lower (fst kv)) kvs) then url
                   else base @ ''?'' @ (if kvs = [] then [] else query_text kvs @ ''&'') @
                        ''download=1'' @
                        (if pr_fragment p = [] then [] else ''#'' @ pr_fragment p))"
    by blast
qed

theorem download_fallback_encoded_witness:
  "urlparse example_env ''https://user@onedrive.live.com:443/a;p=1?id=ABC%21123&x=a+b#frag'' =
     Inr \<lparr>pr_scheme = ''https'', pr_netloc = ''user@onedrive.live.com:443'', pr_path = ''/a'',
           pr_params = ''p=1'', pr_query = ''id=ABC%21123&x=a+b'', pr_fragment = ''frag''\<rparr> \<and>
   urlunparse (''https'', ''user@onedrive.live.com:443'', ''/a'', ''p=1'', ''id=ABC%21123&x=a+b'',
               ''frag'') =
     ''https://user@onedrive.live.com:443/a;p=1?id=ABC%21123&x=a+b#frag'' \<and>
   query_text [(''id'', ''ABC%21123''), (''x'', ''a+b'')] = ''id=ABC%21123&x=a+b'' \<and>
   urlencoded ''id'' \<and> urlencoded ''ABC%21123'' \<and> urlencoded ''x'' \<and> urlencoded ''a+b'' \<and>
   convert_personal_onedrive_to_direct_link example_env
       ''https://user@onedrive.live.com:443/a;p=1?id=ABC%21123&x=a+b#frag'' =
     Inr ''https://user@onedrive.live.com:443/a;p=1?id=ABC%21123&x=a+b&download=1#frag'' \<and>
   urlparse example_env ''http://onedrive.live.com/view.aspx?id=42&DownLoad=0'' =
     Inr \<lparr>pr_scheme = ''http'', pr_netloc = ''onedrive.live.com'', pr_path = ''/view.aspx'',
           pr_params = [], pr_query = ''id=42&DownLoad=0'', pr_fragment = []\<rparr> \<and>
   convert_personal_onedrive_to_direct_link example_env
       ''http://onedrive.live.com/view.aspx?id=42&DownLoad=0'' =
     Inr ''http://onedrive.live.com/view.aspx?id=42&DownLoad=0''"
proof -
  let ?u1 = "''https://user@onedrive.live.com:443/a;p=1?id=ABC%21123&x=a+b#frag''"
  let ?p1 = "\<lparr>pr_scheme = ''https'', pr_netloc = ''user@onedrive.live.com:443'', pr_path = ''/a'',
           pr_params = ''p=1'', pr_query = ''id=ABC%21123&x=a+b'', pr_fragment = ''frag''\<rparr>"
  let ?k1 = "[(''id'', ''ABC%21123''), (''x'', ''a+b'')]"
  let ?u2 = "''http://onedrive.live.com/view.aspx?id=42&DownLoad=0''"
  let ?p2 = "\<lparr>pr_scheme = ''http'', pr_netloc = ''onedrive.live.com'', pr_path = ''/view.aspx'',
           pr_params = [], pr_query = ''id=42&DownLoad=0'', pr_fragment = []\<rparr>"
  let ?k2 = "[(''id'', ''42''), (''DownLoad'', ''0'')]"
  have a1: "urlparse example_env ?u1 = Inr ?p1"
    by (simp add: url_defs splitparams_def str_rfind_def Let_def)
  have b1: "urlunparse (''https'', ''user@onedrive.live.com:443'', ''/a'', ''p=1'',
              ''id=ABC%21123&x=a+b'', ''frag'') = ?u1"
    by (simp add: urlunparse_def urlunsplit_def)
  have q1: "query_text ?k1 = ''id=ABC%21123&x=a+b''"
    by (simp add: query_text_def field_text_def)
  have e1: "urlencoded ''id''" "urlencoded ''ABC%21123''" "urlencoded ''x''" "urlencoded ''a+b''"
    unfolding urlencoded_def by code_simp+
  have e2: "urlencoded ''42''" "urlencoded ''DownLoad''" "urlencoded ''0''"
    unfolding urlencoded_def by code_simp+
  have a2: "urlparse example_env ?u2 = Inr ?p2"
    by (simp add: url_defs Let_def)
  have b2: "urlunparse (''http'', ''onedrive.live.com'', ''/view.aspx'', [], ''id=42&DownLoad=0'',
              []) = ?u2"
    by (simp add: urlunparse_def urlunsplit_def)
  have q2: "query_text ?k2 = ''id=42&DownLoad=0''"
    by (simp add: query_text_def field_text_def)
  have l1: "''download'' \<notin> set (map (\<lambda>kv. str_lower (fst kv)) ?k1)"
    by (simp add: str_lower_def lower_char_def)
  have l2: "''download'' \<in> set (map (\<lambda>kv. str_lower (fst kv)) ?k2)"
    by (simp add: str_lower_def lower_char_def)
  have t1: "convert_personal_onedrive_to_direct_link example_env ?u1 =
              ensure_download_param_fallback example_env ?u1 \<and>
         (\<exists>base.
            ?u1 = base @ (if ?k1 = [] then [] else ''?'' @ query_text ?k1) @
                  (if pr_fragment ?p1 = [] then [] else ''#'' @ pr_fragment ?p1) \<and>
            ensure_download_param_fallback example_env ?u1 =
              Inr (if ''download'' \<in> set (map (\<lambda>kv. str_lower (fst kv)) ?k1) then ?u1
                   else base @ ''?'' @ (if ?k1 = [] then [] else query_text ?k1 @ ''&'') @
                        ''download=1'' @
                        (if pr_fragment ?p1 = [] then [] else ''#'' @ pr_fragment ?p1)))"
    using e1 by (intro download_fallback_encoded[OF a1]) (simp_all add: b1 q1)
  then obtain base where
    u: "?u1 = base @ (if ?k1 = [] then [] else ''?'' @ query_text ?k1) @
                  (if pr_fragment ?p1 = [] then [] else ''#'' @ pr_fragment ?p1)"
    and f: "ensure_download_param_fallback example_env ?u1 =
              Inr (if ''download'' \<in> set (map (\<lambda>kv. str_lower (fst kv)) ?k1) then ?u1
                   else base @ ''?'' @ (if ?k1 = [] then [] else query_text ?k1 @ ''&'') @
                        ''download=1'' @
                        (if pr_fragment ?p1 = [] then [] else ''#'' @ pr_fragment ?p1))"
    by blast
  from u have "''https://user@onedrive.live.com:443/a;p=1'' @ ''?id=ABC%21123&x=a+b#frag'' =
               base @ ''?id=ABC%21123&x=a+b#frag''"
    unfolding q1 by simp
  then have base: "base = ''https://user@onedrive.live.com:443/a;p=1''"
    by (simp only: append_same_eq)
  from f l1 have "ensure_download_param_fallback example_env ?u1 =
     Inr ''https://user@onedrive.live.com:443/a;p=1?id=ABC%21123&x=a+b&download=1#frag''"
    unfolding q1 base by simp
  with t1 have r1: "convert_personal_onedrive_to_direct_link example_env ?u1 =
     Inr ''https://user@onedrive.live.com:443/a;p=1?id=ABC%21123&x=a+b&download=1#frag''"
    by simp
  have t2: "convert_personal_onedrive_to_direct_link example_env ?u2 =
              ensure_download_param_fallback example_env ?u2 \<and>
         (\<exists>base.
            ?u2 = base @ (if ?k2 = [] then [] else ''?'' @ query_text ?k2) @
                  (if pr_fragment ?p2 = [] then [] else ''#'' @ pr_fragment ?p2) \<and>
            ensure_download_param_fallback example_env ?u2 =
              Inr (if ''download'' \<in> set (map (\<lambda>kv. str_lower (fst kv)) ?k2) then ?u2
                   else base @ ''?'' @ (if ?k2 = [] then [] else query_text ?k2 @ ''&'') @
                        ''download=1'' @
                        (if pr_fragment ?p2 = [] then [] else ''#'' @ pr_fragment ?p2)))"
    using e1 e2 by (intro download_fallback_encoded[OF a2]) (simp_all add: b2 q2)
  with l2 have r2: "convert_personal_onedrive_to_direct_link example_env ?u2 = Inr ?u2"
    by (simp only: if_True) blast
  from a1 b1 q1 e1 r1 a2 r2 show ?thesis by blast
qed

subsection \<open>C4: the redeem branch comes first\<close>



subsection \<open>C5: the resid and authkey branch\<close>



subsection \<open>C6: hosts outside the recognised suffixes\<close>

text \<open>
  Claim C6 at the input \<^verbatim>\<open>http://[::1\<close>. The input starts with \<^verbatim>\<open>http://\<close> and has
  no host that ends with one of the six suffixes. \<^verbatim>\<open>urlparse\<close> raises \<^verbatim>\<open>ValueError\<close>
  on it, for the bracket that is never closed, inside \<^verbatim>\<open>is_onedrive_supported_host\<close>,
  which calls it outside any \<^verbatim>\<open>try\<close>. The error leaves
  \<^verbatim>\<open>parse_onedrive_direct_link\<close> as it is, whatever the environment: the outcome is
  not the unsupported-host error, and not a \<^verbatim>\<open>OneDriveLinkError\<close> at all, the only
  error the callers of the function handle.
\<close>

theorem unsupported_host_value_error:
  "http_prefixed ''http://[::1'' \<and>
   urlparse e ''http://[::1'' = Inl ValueError \<and>
   parse_onedrive_direct_link e ''http://[::1'' = (Inl ValueError, []) \<and>
   parse_onedrive_direct_link e ''http://[::1'' \<noteq>
     (Inl (OneDriveLinkError msg_unsupported_host), [])"
proof -
  have a: "http_prefixed ''http://[::1''"
    unfolding re_match_http_iff[symmetric]
    by (simp add: re_match_http_def str_lower_def lower_char_def)
  have b: "urlparse e ''http://[::1'' = Inl ValueError"
    by (simp add: url_defs Let_def)
  have c: "parse_onedrive_direct_link e ''http://[::1'' = (Inl ValueError, [])"
    using a b by (rule urlparse_error_escapes)
  show ?thesis unfolding c using a b by simp
qed

text \<open>
  On the inputs that \<^verbatim>\<open>urlparse\<close> accepts the suffix check does what C6 says. An input
  that passes the first check, that \<^verbatim>\<open>urlparse\<close> accepts, and whose \<^verbatim>\<open>hostname\<close> (the
  empty text when there is none), lowered, ends with none of the six suffixes, fails
  with the unsupported-host error and makes no request. Nothing is asked of the rest
  of the host: \<^verbatim>\<open>evil-sharepoint.com.attacker.net\<close> holds \<^verbatim>\<open>sharepoint.com\<close> and is
  rejected, even on a path of the enterprise shape, and whatever the path, the query
  and the fragment of a url of the plain shape are.
\<close>

theorem unsupported_host_rejected:
  "(\<forall>e url p.
      http_prefixed url \<and> urlparse e url = Inr p \<and>
      \<not> (\<exists>sfx\<in>set supported_suffixes.
            suffix sfx (str_lower (case hostname p of None \<Rightarrow> [] | Some h \<Rightarrow> h))) \<longrightarrow>
      parse_onedrive_direct_link e url = (Inl (OneDriveLinkError msg_unsupported_host), [])) \<and>
   (\<forall>e. parse_onedrive_direct_link e
          ''https://evil-sharepoint.com.attacker.net/:u:/g/personal/alice/TOKEN'' =
        (Inl (OneDriveLinkError msg_unsupported_host), [])) \<and>
   (\<forall>e path query fragment.
      plain_url_parts ''https'' ''evil-sharepoint.com.attacker.net'' path query fragment \<longrightarrow>
      parse_onedrive_direct_link e
        (build_url ''https'' ''evil-sharepoint.com.attacker.net'' path query fragment) =
      (Inl (OneDriveLinkError msg_unsupported_host), []))"
proof (intro conjI allI impI)
  fix e url p
  assume a: "http_prefixed url \<and> urlparse e url = Inr p \<and>
      \<not> (\<exists>sfx\<in>set supported_suffixes.
            suffix sfx (str_lower (case hostname p of None \<Rightarrow> [] | Some h \<Rightarrow> h)))"
  then have "is_onedrive_supported_host e url = Inr False"
    by (simp add: is_onedrive_supported_host_def Let_def list_ex_iff)
  with a show "parse_onedrive_direct_link e url = (Inl (OneDriveLinkError msg_unsupported_host), [])"
    by (simp add: parse_onedrive_direct_link_def re_match_http_iff)
next
  fix e
  show "parse_onedrive_direct_link e
          ''https://evil-sharepoint.com.attacker.net/:u:/g/personal/alice/TOKEN'' =
        (Inl (OneDriveLinkError msg_unsupported_host), [])"
    by (simp add: parse_onedrive_direct_link_def re_match_http_def is_onedrive_supported_host_def
        hostname_def hostinfo_name_def supported_suffixes_def suffix_to_prefix url_defs Let_def)
next
  fix e path query fragment
  assume "plain_url_parts ''https'' ''evil-sharepoint.com.attacker.net'' path query fragment"
  then show "parse_onedrive_direct_link e
        (build_url ''https'' ''evil-sharepoint.com.attacker.net'' path query fragment) =
      (Inl (OneDriveLinkError msg_unsupported_host), [])"
    by (rule evil_host_plain)
qed

theorem unsupported_host_rejected_witness:
  "http_prefixed ''http://sharepoint.com.attacker.net/:u:/g/personal/alice/TOKEN'' \<and>
   urlparse example_env ''http://sharepoint.com.attacker.net/:u:/g/personal/alice/TOKEN'' =
     Inr \<lparr>pr_scheme = ''http'', pr_netloc = ''sharepoint.com.attacker.net'',
           pr_path = ''/:u:/g/personal/alice/TOKEN'', pr_params = [], pr_query = [],
           pr_fragment = []\<rparr> \<and>
   hostname \<lparr>pr_scheme = ''http'', pr_netloc = ''sharepoint.com.attacker.net'',
             pr_path = ''/:u:/g/personal/alice/TOKEN'', pr_params = [], pr_query = [],
             pr_fragment = []\<rparr> = Some ''sharepoint.com.attacker.net'' \<and>
   \<not> list_ex (\<lambda>sfx. suffix sfx (str_lower ''sharepoint.com.attacker.net'')) supported_suffixes \<and>
   parse_onedrive_direct_link example_env
       ''http://sharepoint.com.attacker.net/:u:/g/personal/alice/TOKEN'' =
     (Inl (OneDriveLinkError msg_unsupported_host), [])"
proof -
  let ?url = "''http://sharepoint.com.attacker.net/:u:/g/personal/alice/TOKEN''"
  let ?p = "\<lparr>pr_scheme = ''http'', pr_netloc = ''sharepoint.com.attacker.net'',
           pr_path = ''/:u:/g/personal/alice/TOKEN'', pr_params = [], pr_query = [],
           pr_fragment = []\<rparr>"
  have a: "http_prefixed ?url"
    unfolding re_match_http_iff[symmetric]
    by (simp add: re_match_http_def str_lower_def lower_char_def)
  have b: "urlparse example_env ?url = Inr ?p"
    by (simp add: url_defs Let_def)
  have h: "hostname ?p = Some ''sharepoint.com.attacker.net''"
    by (simp add: hostname_def hostinfo_name_def str_partition_def str_rpartition_def
        str_lower_def lower_char_def Let_def)
  have c: "\<not> list_ex (\<lambda>sfx. suffix sfx (str_lower ''sharepoint.com.attacker.net'')) supported_suffixes"
    by (simp add: supported_suffixes_def suffix_to_prefix str_lower_def lower_char_def)
  from c h have c2: "\<not> (\<exists>sfx\<in>set supported_suffixes.
            suffix sfx (str_lower (case hostname ?p of None \<Rightarrow> [] | Some h \<Rightarrow> h)))"
    by (simp add: list_ex_iff)
  from unsupported_host_rejected[THEN conjunct1, rule_format, of ?url example_env ?p] a b c2
  have "parse_onedrive_direct_link example_env ?url =
     (Inl (OneDriveLinkError msg_unsupported_host), [])" by blast
  with a b h c show ?thesis by blast
qed

subsection \<open>C7: input without the scheme prefix\<close>

text \<open>
  Claim C7 says that every input that does not start with \<^verbatim>\<open>http://\<close> or
  \<^verbatim>\<open>https://\<close> fails with the malformed-input error. The check ignores case
  (\<^verbatim>\<open>flags=re.IGNORECASE\<close>): the input below starts with neither text, passes the
  check and is rewritten.
\<close>

theorem malformed_input_counterexample:
  "\<not> prefix ''http://'' ''HTTPS://contoso-my.sharepoint.cn/:u:/g/personal/alice/TOKEN'' \<and>
   \<not> prefix ''https://'' ''HTTPS://contoso-my.sharepoint.cn/:u:/g/personal/alice/TOKEN'' \<and>
   parse_onedrive_direct_link example_env
       ''HTTPS://contoso-my.sharepoint.cn/:u:/g/personal/alice/TOKEN'' =
     (Inr ''https://contoso-my.sharepoint.cn/personal/alice/_layouts/52/download.aspx?share=TOKEN'', []) \<and>
   parse_onedrive_direct_link example_env
       ''HTTPS://contoso-my.sharepoint.cn/:u:/g/personal/alice/TOKEN'' \<noteq>
     (Inl (OneDriveLinkError msg_need_http), [])"
  by code_simp

text \<open>
  Claim C7, amended: every input that does not start with \<^verbatim>\<open>http://\<close> or
  \<^verbatim>\<open>https://\<close> when the case of the letters is ignored (U+017F counting as an
  \<^verbatim>\<open>s\<close>) fails with the malformed-input error; no url is produced and no request
  is made.
\<close>

theorem malformed_input_rejected:
  "\<not> http_prefixed url \<Longrightarrow>
   parse_onedrive_direct_link e url = (Inl (OneDriveLinkError msg_need_http), [])"
  by (simp add: parse_onedrive_direct_link_def re_match_http_iff)

theorem malformed_input_rejected_witness:
  "\<not> http_prefixed ''ftp://1drv.ms/u/s!AbCdEf'' \<and>
   parse_onedrive_direct_link example_env ''ftp://1drv.ms/u/s!AbCdEf'' =
     (Inl (OneDriveLinkError msg_need_http), []) \<and>
   \<not> http_prefixed ''onedrive.live.com/redir?resid=1&authkey=2'' \<and>
   parse_onedrive_direct_link example_env ''onedrive.live.com/redir?resid=1&authkey=2'' =
     (Inl (OneDriveLinkError msg_need_http), [])"
proof -
  have a: "\<not> http_prefixed ''ftp://1drv.ms/u/s!AbCdEf''"
    unfolding re_match_http_iff[symmetric] by (simp add: re_match_http_def str_lower_def lower_char_def)
  have b: "\<not> http_prefixed ''onedrive.live.com/redir?resid=1&authkey=2''"
    unfolding re_match_http_iff[symmetric] by (simp add: re_match_http_def str_lower_def lower_char_def)
  from a b malformed_input_rejected[OF a, of example_env]
    malformed_input_rejected[OF b, of example_env]
  show ?thesis by simp
qed

subsection \<open>C8: the enterprise rule fails exactly on a path without the pattern\<close>

text \<open>
  Claim C8 states the equivalence on the path of the url. The rule searches
  \<^verbatim>\<open>parsed.path\<close>, from which \<^verbatim>\<open>urlparse\<close> has taken out every tab, carriage return
  and newline and cut off the parameters of the last segment. The path of the first
  url below holds the pattern, with the token \<^verbatim>\<open>;v=1\<close>, and the rule fails on it. The
  path of the second url has a newline inside \<^verbatim>\<open>personal\<close> and does not hold the
  pattern, and the rule rewrites it.
\<close>

theorem sharepoint_mismatch_counterexample:
  "build_url ''https'' ''c.sharepoint.com'' ''/:u:/g/personal/alice/;v=1'' [] [] =
     ''https://c.sharepoint.com/:u:/g/personal/alice/;v=1'' \<and>
   path_matches ''/:u:/g/personal/alice/;v=1'' \<and>
   convert_sharepoint_to_direct_link example_env
       ''https://c.sharepoint.com/:u:/g/personal/alice/;v=1'' =
     Inl (OneDriveLinkError
            (msg_standard_link @ msg_supported_format @ msg_current_link @
             ''https://c.sharepoint.com/:u:/g/personal/alice/;v=1'')) \<and>
   build_url ''https'' ''c.sharepoint.com'' (''/:u:/g/perso'' @ [CHR 0x0A] @ ''nal/alice/TOK'')
       [] [] =
     ''https://c.sharepoint.com/:u:/g/perso'' @ [CHR 0x0A] @ ''nal/alice/TOK'' \<and>
   \<not> path_matches (''/:u:/g/perso'' @ [CHR 0x0A] @ ''nal/alice/TOK'') \<and>
   convert_sharepoint_to_direct_link example_env
       (''https://c.sharepoint.com/:u:/g/perso'' @ [CHR 0x0A] @ ''nal/alice/TOK'') =
     Inr ''https://c.sharepoint.com/personal/alice/_layouts/52/download.aspx?share=TOK''"
proof -
  have a: "path_matches ''/:u:/g/personal/alice/;v=1''"
    using re_search_None_iff[of "''/:u:/g/personal/alice/;v=1''"]
    by (simp add: sharepoint_match_here_def)
  have b: "convert_sharepoint_to_direct_link example_env
       ''https://c.sharepoint.com/:u:/g/personal/alice/;v=1'' =
     Inl (OneDriveLinkError
            (msg_standard_link @ msg_supported_format @ msg_current_link @
             ''https://c.sharepoint.com/:u:/g/personal/alice/;v=1''))"
    by code_simp
  have c: "\<not> path_matches (''/:u:/g/perso'' @ [CHR 0x0A] @ ''nal/alice/TOK'')"
    unfolding re_search_None_iff[symmetric] by (simp add: sharepoint_match_here_def)
  have d: "convert_sharepoint_to_direct_link example_env
       (''https://c.sharepoint.com/:u:/g/perso'' @ [CHR 0x0A] @ ''nal/alice/TOK'') =
     Inr ''https://c.sharepoint.com/personal/alice/_layouts/52/download.aspx?share=TOK''"
    by code_simp
  have e: "build_url ''https'' ''c.sharepoint.com'' ''/:u:/g/personal/alice/;v=1'' [] [] =
     ''https://c.sharepoint.com/:u:/g/personal/alice/;v=1''"
    by (simp add: build_url_def)
  have f: "build_url ''https'' ''c.sharepoint.com''
       (''/:u:/g/perso'' @ [CHR 0x0A] @ ''nal/alice/TOK'') [] [] =
     ''https://c.sharepoint.com/:u:/g/perso'' @ [CHR 0x0A] @ ''nal/alice/TOK''"
    by (simp add: build_url_def)
  from a b c d e f show ?thesis by (intro conjI)
qed

text \<open>
  Claim C8, amended: the path is the one that \<^verbatim>\<open>urlparse\<close> returns. For a url that
  \<^verbatim>\<open>urlparse\<close> accepts, the enterprise rule fails if and only if the pattern
  \<^verbatim>\<open>/:u:/g/personal/<user>/<token>\<close> occurs nowhere in \<^verbatim>\<open>parsed.path\<close>. It then
  raises \<^verbatim>\<open>OneDriveLinkError\<close> with the message built from the three fixed lines and
  the url: the message holds the expected format \<^verbatim>\<open>https://domain/:u:/g/personal/\<close>...
  and ends with the url. There is no other outcome on such a path: no fallback url is
  returned.
\<close>

theorem sharepoint_mismatch_error:
  assumes "urlparse e url = Inr p"
  shows "((\<exists>err. convert_sharepoint_to_direct_link e url = Inl err) \<longleftrightarrow>
            \<not> path_matches (pr_path p)) \<and>
         (\<not> path_matches (pr_path p) \<longrightarrow>
            convert_sharepoint_to_direct_link e url =
              Inl (OneDriveLinkError
                     (msg_standard_link @ msg_supported_format @ msg_current_link @ url))) \<and>
         sublist ''https://domain/:u:/g/personal/''
           (msg_standard_link @ msg_supported_format @ msg_current_link @ url) \<and>
         suffix url (msg_standard_link @ msg_supported_format @ msg_current_link @ url)"
proof (intro conjI impI)
  show "(\<exists>err. convert_sharepoint_to_direct_link e url = Inl err) \<longleftrightarrow>
            \<not> path_matches (pr_path p)"
    unfolding re_search_None_iff[symmetric]
    by (simp add: convert_sharepoint_to_direct_link_def assms Let_def split: option.splits)
  show "convert_sharepoint_to_direct_link e url =
          Inl (OneDriveLinkError
                 (msg_standard_link @ msg_supported_format @ msg_current_link @ url))"
    if "\<not> path_matches (pr_path p)"
    using that unfolding re_search_None_iff[symmetric]
    by (simp add: convert_sharepoint_to_direct_link_def assms Let_def)
  have "msg_supported_format = take 14 msg_supported_format @
          ''https://domain/:u:/g/personal/'' @ drop 44 msg_supported_format"
    by (simp add: msg_supported_format_def)
  then have "sublist ''https://domain/:u:/g/personal/'' msg_supported_format"
    unfolding sublist_def by blast
  then show "sublist ''https://domain/:u:/g/personal/''
           (msg_standard_link @ msg_supported_format @ msg_current_link @ url)"
    by (meson sublist_appendI sublist_order.order_trans sublist_append_rightI sublist_append_leftI)
  show "suffix url (msg_standard_link @ msg_supported_format @ msg_current_link @ url)"
    by (metis append.assoc suffixI)
qed

theorem sharepoint_mismatch_error_witness:
  "urlparse example_env ''https://contoso.sharepoint.com/:f:/g/personal/alice/TOKEN'' =
     Inr \<lparr>pr_scheme = ''https'', pr_netloc = ''contoso.sharepoint.com'',
           pr_path = ''/:f:/g/personal/alice/TOKEN'', pr_params = [], pr_query = [],
           pr_fragment = []\<rparr> \<and>
   \<not> path_matches ''/:f:/g/personal/alice/TOKEN'' \<and>
   convert_sharepoint_to_direct_link example_env
       ''https://contoso.sharepoint.com/:f:/g/personal/alice/TOKEN'' =
     Inl (OneDriveLinkError
            (msg_standard_link @ msg_supported_format @ msg_current_link @
             ''https://contoso.sharepoint.com/:f:/g/personal/alice/TOKEN'')) \<and>
   urlparse example_env ''https://contoso.sharepoint.com/:u:/g/personal/alice/TOKEN'' =
     Inr \<lparr>pr_scheme = ''https'', pr_netloc = ''contoso.sharepoint.com'',
           pr_path = ''/:u:/g/personal/alice/TOKEN'', pr_params = [], pr_query = [],
           pr_fragment = []\<rparr> \<and>
   path_matches ''/:u:/g/personal/alice/TOKEN'' \<and>
   \<not> (\<exists>err. convert_sharepoint_to_direct_link example_env
                 ''https://contoso.sharepoint.com/:u:/g/personal/alice/TOKEN'' = Inl err)"
proof -
  let ?u = "''https://contoso.sharepoint.com/:f:/g/personal/alice/TOKEN''"
  let ?p = "\<lparr>pr_scheme = ''https'', pr_netloc = ''contoso.sharepoint.com'',
           pr_path = ''/:f:/g/personal/alice/TOKEN'', pr_params = [], pr_query = [],
           pr_fragment = []\<rparr>"
  let ?v = "''https://contoso.sharepoint.com/:u:/g/personal/alice/TOKEN''"
  let ?q = "\<lparr>pr_scheme = ''https'', pr_netloc = ''contoso.sharepoint.com'',
           pr_path = ''/:u:/g/personal/alice/TOKEN'', pr_params = [], pr_query = [],
           pr_fragment = []\<rparr>"
  have a: "urlparse example_env ?u = Inr ?p" by (simp add: url_defs Let_def)
  have b: "\<not> path_matches ''/:f:/g/personal/alice/TOKEN''"
    unfolding re_search_None_iff[symmetric] by (simp add: sharepoint_match_here_def)
  have c: "urlparse example_env ?v = Inr ?q" by (simp add: url_defs Let_def)
  have d: "path_matches ''/:u:/g/personal/alice/TOKEN''"
    using re_search_None_iff[of "''/:u:/g/personal/alice/TOKEN''"]
    by (simp add: sharepoint_match_here_def)
  from sharepoint_mismatch_error[OF a] b
  have r1: "convert_sharepoint_to_direct_link example_env ?u =
     Inl (OneDriveLinkError (msg_standard_link @ msg_supported_format @ msg_current_link @ ?u))"
    by simp
  from sharepoint_mismatch_error[OF c] d
  have r2: "\<not> (\<exists>err. convert_sharepoint_to_direct_link example_env ?v = Inl err)"
    by simp
  from a b c d r1 r2 show ?thesis by blast
qed

subsection \<open>C9: the stored history has unique urls and at most 100 entries\<close>

text \<open>
  Claim C9. Every successful \<^verbatim>\<open>save_history\<close> leaves a history with unique \<^verbatim>\<open>url\<close>
  fields and at most 100 entries, newest insertion first. First conjunct: after any run
  of requests from the absent file, the urls of the stored history are distinct and it
  has at most 100 entries. Second conjunct: a successful save onto a history with
  distinct urls and at most 100 entries stores a history with distinct urls and at most
  100 entries in which exactly one entry carries the saved url, the entry just built
  (so saving the same url twice leaves one entry, the later one); a url that was
  stored is overwritten where it stands, so the order of the urls stays; a url that
  was not stored is put in front and the list cut to 100, and when 100 entries were stored the
  last of them (the oldest insertion) is the one dropped, leaving exactly 100. Third
  conjunct: requests with pairwise different urls, run from the absent file, leave the
  entries in reverse order of insertion, cut to the 100 newest.
\<close>

theorem save_history_unique_and_capped:
  "(\<forall>reqs. distinct (map item_url (load_history (save_all reqs None))) \<and>
           length (load_history (save_all reqs None)) \<le> 100) \<and>
   (\<forall>clk d data stored resp stored2.
      save_history clk d data stored = (resp, stored2) \<and> success resp \<and>
      distinct (map item_url (load_history stored)) \<and> length (load_history stored) \<le> 100 \<longrightarrow>
      (\<exists>body u h. data = Some body \<and> req_url body = Some u \<and> stored2 = Some h \<and>
         distinct (map item_url h) \<and> length h \<le> 100 \<and>
         filter (\<lambda>x. item_url x = u) h = [make_item clk body u] \<and>
         (u \<in> set (map item_url (load_history stored)) \<longrightarrow>
            map item_url h = map item_url (load_history stored)) \<and>
         (u \<notin> set (map item_url (load_history stored)) \<longrightarrow>
            h = take 100 (make_item clk body u # load_history stored)) \<and>
         (u \<notin> set (map item_url (load_history stored)) \<and> length (load_history stored) = 100 \<longrightarrow>
            h = make_item clk body u # butlast (load_history stored) \<and> length h = 100))) \<and>
   (\<forall>reqs. (\<forall>r\<in>set reqs. req_url (snd r) \<noteq> None) \<and>
           distinct (map (\<lambda>q. item_url (request_item q)) reqs) \<longrightarrow>
           load_history (save_all reqs None) = take 100 (rev (map request_item reqs)))"
proof (intro conjI allI impI)
  fix reqs
  show "distinct (map item_url (load_history (save_all reqs None)))"
    using save_all_invariant[of None reqs] by simp
  show "length (load_history (save_all reqs None)) \<le> 100"
    using save_all_invariant[of None reqs] by simp
next
  fix clk d data stored resp stored2
  assume "save_history clk d data stored = (resp, stored2) \<and> success resp \<and>
      distinct (map item_url (load_history stored)) \<and> length (load_history stored) \<le> 100"
  then show "\<exists>body u h. data = Some body \<and> req_url body = Some u \<and> stored2 = Some h \<and>
         distinct (map item_url h) \<and> length h \<le> 100 \<and>
         filter (\<lambda>x. item_url x = u) h = [make_item clk body u] \<and>
         (u \<in> set (map item_url (load_history stored)) \<longrightarrow>
            map item_url h = map item_url (load_history stored)) \<and>
         (u \<notin> set (map item_url (load_history stored)) \<longrightarrow>
            h = take 100 (make_item clk body u # load_history stored)) \<and>
         (u \<notin> set (map item_url (load_history stored)) \<and> length (load_history stored) = 100 \<longrightarrow>
            h = make_item clk body u # butlast (load_history stored) \<and> length h = 100)"
    using save_history_step by blast
next
  fix reqs :: "(clock \<times> save_request) list"
  assume "(\<forall>r\<in>set reqs. req_url (snd r) \<noteq> None) \<and>
           distinct (map (\<lambda>q. item_url (request_item q)) reqs)"
  then show "load_history (save_all reqs None) = take 100 (rev (map request_item reqs))"
    using save_all_history[of reqs None] by simp
qed

theorem save_history_unique_and_capped_witness:
  "save_history example_clock WriteOk (Some (example_request []))
       (Some (map example_entry [0..<100])) =
     (Saved, Some (merge_item (make_item example_clock (example_request []) [])
                     (map example_entry [0..<100]))) \<and>
   success Saved \<and>
   distinct (map item_url (load_history (Some (map example_entry [0..<100])))) \<and>
   length (load_history (Some (map example_entry [0..<100]))) \<le> 100 \<and>
   [] \<notin> set (map item_url (load_history (Some (map example_entry [0..<100])))) \<and>
   length (load_history (Some (map example_entry [0..<100]))) = 100 \<and>
   merge_item (make_item example_clock (example_request []) []) (map example_entry [0..<100]) =
     make_item example_clock (example_request []) [] # butlast (map example_entry [0..<100]) \<and>
   length (merge_item (make_item example_clock (example_request []) [])
             (map example_entry [0..<100])) = 100 \<and>
   filter (\<lambda>x. item_url x = [])
       (merge_item (make_item example_clock (example_request []) [])
          (map example_entry [0..<100])) =
     [make_item example_clock (example_request []) []] \<and>
   load_history (save_all [(example_clock, example_request ''a''),
                           (example_clock, example_request ''a'')] None) =
     [make_item example_clock (example_request ''a'') ''a''] \<and>
   load_history (save_all [(example_clock, example_request ''a''),
                           (example_clock, example_request ''b'')] None) =
     [make_item example_clock (example_request ''b'') ''b'',
      make_item example_clock (example_request ''a'') ''a'']"
proof -
  let ?old = "map example_entry [0..<100]"
  let ?req = "example_request []"
  let ?new = "make_item example_clock ?req []"
  have u: "req_url ?req = Some []" by (simp add: example_request_def)
  have hyps:
    "save_history example_clock WriteOk (Some ?req) (Some ?old) = (Saved, Some (merge_item ?new ?old)) \<and>
     success Saved \<and> distinct (map item_url (load_history (Some ?old))) \<and>
     length (load_history (Some ?old)) \<le> 100"
    by (auto simp: save_history_WriteOk[OF u] example_entry_def distinct_map inj_on_def comp_def
        simp del: upt_Suc replicate_Suc)
  have fresh: "[] \<notin> set (map item_url (load_history (Some ?old)))"
    by (auto simp: example_entry_def)
  have full: "length (load_history (Some ?old)) = 100" by simp
  from save_history_unique_and_capped[THEN conjunct2, THEN conjunct1, rule_format, OF hyps]
  obtain body v h where
    b: "Some ?req = Some body" and v: "req_url body = Some v" and h: "Some (merge_item ?new ?old) = Some h"
    and f: "filter (\<lambda>x. item_url x = v) h = [make_item example_clock body v]"
    and d: "v \<notin> set (map item_url (load_history (Some ?old))) \<and> length (load_history (Some ?old)) = 100 \<longrightarrow>
          h = make_item example_clock body v # butlast (load_history (Some ?old)) \<and> length h = 100"
    by blast
  from b v u have v0: "v = []" and b0: "body = ?req" by simp_all
  from h have h0: "h = merge_item ?new ?old" by simp
  from d fresh full have step: "merge_item ?new ?old = ?new # butlast ?old \<and> length (merge_item ?new ?old) = 100"
    unfolding v0 b0 h0 by simp
  from f have one: "filter (\<lambda>x. item_url x = []) (merge_item ?new ?old) = [?new]"
    unfolding v0 b0 h0 .
  have same: "load_history (save_all [(example_clock, example_request ''a''),
                           (example_clock, example_request ''a'')] None) =
     [make_item example_clock (example_request ''a'') ''a'']"
    by (simp add: save_history_def save_history_to_file_def merge_item_def Let_def
        example_request_def make_item_def)
  have two: "load_history (save_all [(example_clock, example_request ''a''),
                           (example_clock, example_request ''b'')] None) =
     [make_item example_clock (example_request ''b'') ''b'',
      make_item example_clock (example_request ''a'') ''a'']"
    using save_history_unique_and_capped[THEN conjunct2, THEN conjunct2, rule_format,
        of "[(example_clock, example_request ''a''), (example_clock, example_request ''b'')]"]
    by (simp add: request_item_def example_request_def make_item_def)
  from hyps fresh full step one same two show ?thesis by blast
qed

subsection \<open>C10: parameters with empty values are ignored\<close>



end
